theory Spec2Isabelle
  imports Complex_Main "HOL-Library.Word"
begin

section \<open>C values, faults and the environment\<close>

text \<open>
  The program is \<^verbatim>\<open>sample/main.c\<close>. Its \<^verbatim>\<open>int\<close> is taken to be 32 bits wide and its
  \<^verbatim>\<open>size_t\<close> 64 bits wide (an LP64 platform). An \<^verbatim>\<open>int\<close> is modelled as a HOL
  \<open>int\<close>; every place where the C arithmetic would leave the range of \<^verbatim>\<open>int\<close> is
  a branch of the model that yields the fault \<open>Signed_Overflow\<close> (undefined behaviour in C),
  every array access outside the allocated buffer yields \<open>Out_Of_Bounds\<close>, and a
  division by zero yields \<open>Division_By_Zero\<close>.
  An \<^verbatim>\<open>unsigned char\<close> is an \<open>8 word\<close>, an \<^verbatim>\<open>unsigned int\<close> a \<open>32 word\<close>.
\<close>

datatype fault = Out_Of_Bounds | Signed_Overflow | Division_By_Zero

type_synonym uchar = "8 word"

definition INT_MAX :: int where
  "INT_MAX = 2147483647"

definition size_t_of_int :: "int \<Rightarrow> nat" where
  \<comment> \<open>conversion of an \<^verbatim>\<open>int\<close> to \<^verbatim>\<open>size_t\<close>: reduction modulo \<open>2 ^ 64\<close>\<close>
  "size_t_of_int n = nat (n mod 2 ^ 64)"

text \<open>
  Everything outside the program is a field of the record \<open>world\<close>, which every
  function that has an effect takes and returns:
  \<^item> \<open>clock w k\<close> is the value that the \<open>k\<close>-th call of \<^verbatim>\<open>now_seconds\<close> returns and
    \<open>ticks\<close> counts the calls made so far;
  \<^item> \<open>heap w k sz\<close> tells whether the \<open>k\<close>-th call of \<^verbatim>\<open>malloc\<close>, asking for \<open>sz\<close> bytes,
    returns a block, \<open>mallocs\<close> counts the calls, and \<open>uninit w k\<close> is the indeterminate
    content of that block read as an array of \<^verbatim>\<open>double\<close>;
  \<^item> \<open>openable w path\<close> tells whether \<^verbatim>\<open>fopen(path, "wb")\<close> succeeds and \<open>files\<close> holds the
    bytes of the files written;
  \<^item> \<open>stdout\<close> and \<open>stderr\<close> are the calls of \<^verbatim>\<open>printf\<close> and \<^verbatim>\<open>fprintf(stderr, ...)\<close> in
    order, each kept as its format string and its arguments.
\<close>

datatype arg = Int_arg int | Dbl_arg real | Str_arg string

record world =
  clock :: "nat \<Rightarrow> real"
  ticks :: nat
  heap :: "nat \<Rightarrow> nat \<Rightarrow> bool"
  mallocs :: nat
  uninit :: "nat \<Rightarrow> nat \<Rightarrow> real"
  openable :: "string \<Rightarrow> bool"
  files :: "string \<Rightarrow> uchar list option"
  stdout :: "(string \<times> arg list) list"
  stderr :: "(string \<times> arg list) list"

abbreviation nl :: char where
  "nl \<equiv> CHR 0x0A"

definition now_seconds :: "world \<Rightarrow> real \<times> world" where
  "now_seconds w = (clock w (ticks w), w\<lparr>ticks := Suc (ticks w)\<rparr>)"

definition malloc :: "nat \<Rightarrow> world \<Rightarrow> bool \<times> world" where
  \<comment> \<open>the flag tells whether the pointer returned is non-null\<close>
  "malloc sz w = (heap w (mallocs w) sz, w\<lparr>mallocs := Suc (mallocs w)\<rparr>)"

definition printf :: "string \<Rightarrow> arg list \<Rightarrow> world \<Rightarrow> world" where
  "printf fmt args w = w\<lparr>stdout := stdout w @ [(fmt, args)]\<rparr>"

definition eprintf :: "string \<Rightarrow> arg list \<Rightarrow> world \<Rightarrow> world" where
  \<comment> \<open>\<^verbatim>\<open>fprintf(stderr, fmt, ...)\<close>\<close>
  "eprintf fmt args w = w\<lparr>stderr := stderr w @ [(fmt, args)]\<rparr>"

section \<open>The prime sieve\<close>

text \<open>
  \<^verbatim>\<open>for(int q=p*p; q<=limit; q+=p) isprime[q]=0;\<close>
  The loop is entered at \<open>q\<close>; \<open>None\<close> stands for a loop that never ends
  (which a step \<open>p = 0\<close> would cause).
\<close>

partial_function (option) mark_multiples ::
  "int \<Rightarrow> int \<Rightarrow> int \<Rightarrow> uchar list \<Rightarrow> (fault + uchar list) option" where
  "mark_multiples limit p q isprime =
     (if q \<le> limit then
        (if 0 \<le> q \<and> nat q < length isprime then
           (if INT_MAX < q + p \<or> q + p < - INT_MAX - 1 then Some (Inl Signed_Overflow)
            else mark_multiples limit p (q + p) (isprime[nat q := 0]))
         else Some (Inl Out_Of_Bounds))
      else Some (Inr isprime))"

declare mark_multiples.simps [code]

text \<open>
  \<^verbatim>\<open>for(int p=2; p*p<=limit; ++p){ if(isprime[p]){ ... } }\<close>, entered at \<open>p\<close>.
  The product \<^verbatim>\<open>p*p\<close> is computed before it is compared; once it is known to fit,
  \<^verbatim>\<open>++p\<close> cannot overflow.
\<close>

function sieve_loop :: "int \<Rightarrow> int \<Rightarrow> uchar list \<Rightarrow> (fault + uchar list) option" where
  "sieve_loop limit p isprime =
     (if INT_MAX < p * p then Some (Inl Signed_Overflow)
      else if p * p \<le> limit then
        (if 0 \<le> p \<and> nat p < length isprime then
           (if isprime ! nat p \<noteq> 0 then
              (case mark_multiples limit p (p * p) isprime of
                 None \<Rightarrow> None
               | Some (Inl e) \<Rightarrow> Some (Inl e)
               | Some (Inr isprime') \<Rightarrow> sieve_loop limit (p + 1) isprime')
            else sieve_loop limit (p + 1) isprime)
         else Some (Inl Out_Of_Bounds))
      else Some (Inr isprime))"
  by pat_completeness auto
termination
proof (relation "measure (\<lambda>(limit, p, isprime). nat (limit + 1 - p))")
  show "wf (measure (\<lambda>(limit, p, isprime). nat (limit + 1 - p)))"
    by simp
next
  fix limit p :: int and isprime x2 :: "uchar list" and x2a
  assume "p * p \<le> limit"
  moreover have "p \<le> p * p"
    by (cases "p \<le> 0") (auto intro: order_trans [of p 0] simp: mult_le_cancel_left1 mult_le_cancel_right1 zero_le_mult_iff)
  ultimately have "p \<le> limit" by linarith
  then show "((limit, p + 1, x2), limit, p, isprime)
             \<in> measure (\<lambda>(limit, p, isprime). nat (limit + 1 - p))"
    by simp
next
  fix limit p :: int and isprime :: "uchar list"
  assume "p * p \<le> limit"
  moreover have "p \<le> p * p"
    by (cases "p \<le> 0") (auto intro: order_trans [of p 0] simp: mult_le_cancel_left1 mult_le_cancel_right1 zero_le_mult_iff)
  ultimately have "p \<le> limit" by linarith
  then show "((limit, p + 1, isprime), limit, p, isprime)
             \<in> measure (\<lambda>(limit, p, isprime). nat (limit + 1 - p))"
    by simp
qed

text \<open>
  \<^verbatim>\<open>for(int i=2;i<=limit;++i) if(isprime[i]) ++cnt;\<close>, entered at \<open>i\<close> with the
  running count \<open>cnt\<close>, which stays below \<open>i\<close> on every entry from \<open>i = 2\<close>, \<open>cnt = 0\<close> and
  so cannot overflow where \<open>i\<close> does not.
\<close>

function count_loop :: "int \<Rightarrow> int \<Rightarrow> int \<Rightarrow> uchar list \<Rightarrow> fault + int" where
  "count_loop limit i cnt isprime =
     (if i \<le> limit then
        (if 0 \<le> i \<and> nat i < length isprime then
           (if INT_MAX < i + 1 then Inl Signed_Overflow
            else count_loop limit (i + 1) (if isprime ! nat i \<noteq> 0 then cnt + 1 else cnt) isprime)
         else Inl Out_Of_Bounds)
      else Inr cnt)"
  by pat_completeness auto
termination
  by (relation "measure (\<lambda>(limit, i, cnt, isprime). nat (limit + 1 - i))") auto


declare sieve_loop.simps [simp del] count_loop.simps [simp del]

text \<open>
  The body of \<^verbatim>\<open>sieve_count_primes\<close> once \<^verbatim>\<open>malloc\<close> and \<^verbatim>\<open>memset\<close> have produced the
  buffer: \<^verbatim>\<open>isprime[0] = isprime[1] = 0\<close>, the two loops, and the value stored to
  \<^verbatim>\<open>*out_count\<close>.
\<close>

definition sieve_run :: "int \<Rightarrow> uchar list \<Rightarrow> (fault + int) option" where
  "sieve_run limit isprime =
     (if length isprime < 2 then Some (Inl Out_Of_Bounds)
      else
        (case sieve_loop limit 2 (isprime[1 := 0, 0 := 0]) of
           None \<Rightarrow> None
         | Some (Inl e) \<Rightarrow> Some (Inl e)
         | Some (Inr isprime') \<Rightarrow> Some (count_loop limit 2 0 isprime')))"

text \<open>
  \<^verbatim>\<open>static void sieve_count_primes(int limit, int *out_count)\<close>. The result is the value
  left in \<^verbatim>\<open>*out_count\<close> together with the new world.
\<close>

definition sieve_count_primes :: "int \<Rightarrow> world \<Rightarrow> (fault + int \<times> world) option" where
  "sieve_count_primes limit w =
     (if INT_MAX < limit + 1 then Some (Inl Signed_Overflow)
      else
        let n = limit + 1;
            (ok, w1) = malloc (size_t_of_int n) w
        in if \<not> ok then Some (Inr (- 1, eprintf (''malloc failed sieve'' @ [nl]) [] w1))
           else
             (case sieve_run limit (replicate (size_t_of_int n) 1) of
                None \<Rightarrow> None
              | Some (Inl e) \<Rightarrow> Some (Inl e)
              | Some (Inr cnt) \<Rightarrow> Some (Inr (cnt, w1))))"


section \<open>The matrix multiplication\<close>

text \<open>
  A \<^verbatim>\<open>double\<close> is modelled by the real number it denotes, and every floating-point
  operation by the exact operation followed by a rounding function \<open>rnd\<close>, which is a
  parameter of the model: nothing is assumed about it unless a theorem says so
  (the predicate \<open>fp_model\<close> below collects what IEEE 754 binary64 rounding to nearest
  guarantees in the range where it is used). Infinities and NaN are not modelled, and
  neither is the contraction of a product and a sum into one fused operation.
\<close>

text \<open>\<^verbatim>\<open>seed = seed * 1103515245 + 12345\<close> on an \<^verbatim>\<open>unsigned int\<close>.\<close>

definition lcg :: "32 word \<Rightarrow> 32 word" where
  "lcg seed = seed * 1103515245 + 12345"

text \<open>\<^verbatim>\<open>(double)(seed % 1000) / 100.0\<close>\<close>

definition sample :: "(real \<Rightarrow> real) \<Rightarrow> 32 word \<Rightarrow> real" where
  "sample rnd seed = rnd (real (unat (seed mod 1000)) / 100)"

text \<open>
  The index expression \<^verbatim>\<open>(size_t)i*M + k\<close>: both \<^verbatim>\<open>int\<close> operands are converted to
  \<^verbatim>\<open>size_t\<close> and the arithmetic is modulo \<open>2 ^ 64\<close>.
\<close>

definition idx :: "int \<Rightarrow> int \<Rightarrow> int \<Rightarrow> nat" where
  "idx i M k = (size_t_of_int i * size_t_of_int M + size_t_of_int k) mod 2 ^ 64"

text \<open>
  \<^verbatim>\<open>for(size_t i=0;i<n;i++){ seed = ...; A[i] = ...; seed = ...; B[i] = ...; C[i] = 0.0; }\<close>,
  entered at \<open>i\<close> with the generator state \<open>seed\<close>.
\<close>

function init_loop ::
  "(real \<Rightarrow> real) \<Rightarrow> nat \<Rightarrow> nat \<Rightarrow> 32 word \<Rightarrow> real list \<Rightarrow> real list \<Rightarrow> real list
   \<Rightarrow> fault + (real list \<times> real list \<times> real list)" where
  "init_loop rnd n i seed A B C =
     (if i < n then
        (if i < length A \<and> i < length B \<and> i < length C then
           (let seed1 = lcg seed;
                A' = A[i := sample rnd seed1];
                seed2 = lcg seed1;
                B' = B[i := sample rnd seed2];
                C' = C[i := 0]
            in init_loop rnd n (Suc i) seed2 A' B' C')
         else Inl Out_Of_Bounds)
      else Inr (A, B, C))"
  by pat_completeness auto
termination
  by (relation "measure (\<lambda>(rnd, n, i, seed, A, B, C). n - i)") auto

text \<open>
  \<^verbatim>\<open>for(int j=0;j<M;j++) C[(size_t)i*M + j] += aik * B[(size_t)k*M + j];\<close>, entered at \<open>j\<close>.
\<close>

function mm_j ::
  "(real \<Rightarrow> real) \<Rightarrow> int \<Rightarrow> int \<Rightarrow> int \<Rightarrow> real \<Rightarrow> int \<Rightarrow> real list \<Rightarrow> real list
   \<Rightarrow> fault + real list" where
  "mm_j rnd M i k aik j B C =
     (if j < M then
        (if idx i M j < length C \<and> idx k M j < length B then
           mm_j rnd M i k aik (j + 1) B
             (C[idx i M j := rnd (C ! idx i M j + rnd (aik * B ! idx k M j))])
         else Inl Out_Of_Bounds)
      else Inr C)"
  by pat_completeness auto
termination
  by (relation "measure (\<lambda>(rnd, M, i, k, aik, j, B, C). nat (M - j))") auto

text \<open>
  \<^verbatim>\<open>for(int k=0;k<M;k++){ double aik = A[(size_t)i*M + k]; ... }\<close>, entered at \<open>k\<close>.
\<close>

function mm_k ::
  "(real \<Rightarrow> real) \<Rightarrow> int \<Rightarrow> int \<Rightarrow> int \<Rightarrow> real list \<Rightarrow> real list \<Rightarrow> real list
   \<Rightarrow> fault + real list" where
  "mm_k rnd M i k A B C =
     (if k < M then
        (if idx i M k < length A then
           (case mm_j rnd M i k (A ! idx i M k) 0 B C of
              Inl e \<Rightarrow> Inl e
            | Inr C' \<Rightarrow> mm_k rnd M i (k + 1) A B C')
         else Inl Out_Of_Bounds)
      else Inr C)"
  by pat_completeness auto
termination
  by (relation "measure (\<lambda>(rnd, M, i, k, A, B, C). nat (M - k))") auto

text \<open>\<^verbatim>\<open>for(int i=0;i<M;i++){ ... }\<close>, entered at \<open>i\<close>.\<close>

function mm_i ::
  "(real \<Rightarrow> real) \<Rightarrow> int \<Rightarrow> int \<Rightarrow> real list \<Rightarrow> real list \<Rightarrow> real list \<Rightarrow> fault + real list" where
  "mm_i rnd M i A B C =
     (if i < M then
        (case mm_k rnd M i 0 A B C of
           Inl e \<Rightarrow> Inl e
         | Inr C' \<Rightarrow> mm_i rnd M (i + 1) A B C')
      else Inr C)"
  by pat_completeness auto
termination
  by (relation "measure (\<lambda>(rnd, M, i, A, B, C). nat (M - i))") auto

text \<open>
  \<^verbatim>\<open>for(int i=0;i<M;i+= (M>8? M/8 : 1)) checksum += C[(size_t)i*M + (i%M)];\<close>, entered
  at \<open>i\<close> with the running total. Inside the loop \<open>0 \<le> i < M\<close> holds on every entry from
  \<open>i = 0\<close>, where C's \<^verbatim>\<open>%\<close> and \<^verbatim>\<open>/\<close> agree with \<open>mod\<close> and \<open>div\<close>; they are written with
  C's truncation for the other arguments.
\<close>

definition c_div :: "int \<Rightarrow> int \<Rightarrow> int" where
  \<comment> \<open>the quotient of the magnitudes, negative when the signs differ\<close>
  "c_div a b = (if (a < 0) = (b < 0) then \<bar>a\<bar> div \<bar>b\<bar> else - (\<bar>a\<bar> div \<bar>b\<bar>))"

definition c_mod :: "int \<Rightarrow> int \<Rightarrow> int" where
  "c_mod a b = a - b * c_div a b"

definition stride :: "int \<Rightarrow> int" where
  \<comment> \<open>\<^verbatim>\<open>(M>8? M/8 : 1)\<close>\<close>
  "stride M = (if M > 8 then c_div M 8 else 1)"

function checksum_loop ::
  "(real \<Rightarrow> real) \<Rightarrow> int \<Rightarrow> int \<Rightarrow> real \<Rightarrow> real list \<Rightarrow> fault + real" where
  "checksum_loop rnd M i checksum C =
     (if i < M then
        (if M = 0 then Inl Division_By_Zero
         else if idx i M (c_mod i M) < length C then
           (if INT_MAX < i + stride M then Inl Signed_Overflow
            else checksum_loop rnd M (i + stride M) (rnd (checksum + C ! idx i M (c_mod i M))) C)
         else Inl Out_Of_Bounds)
      else Inr checksum)"
  by pat_completeness auto
termination
proof (relation "measure (\<lambda>(rnd, M, i, checksum, C). nat (M - i))")
  show "wf (measure (\<lambda>(rnd, M, i, checksum, C). nat (M - i)))" by simp
next
  fix rnd :: "real \<Rightarrow> real" and M i :: int and checksum :: real and C :: "real list"
  assume "i < M"
  moreover have "1 \<le> stride M"
  proof (cases "M > 8")
    case True
    then have "1 \<le> M div 8" by presburger
    with True show ?thesis by (simp add: stride_def c_div_def)
  next
    case False
    then show ?thesis by (simp add: stride_def)
  qed
  ultimately show "((rnd, M, i + stride M, rnd (checksum + C ! idx i M (c_mod i M)), C),
      rnd, M, i, checksum, C) \<in> measure (\<lambda>(rnd, M, i, checksum, C). nat (M - i))"
    by simp
qed

declare init_loop.simps [simp del] mm_j.simps [simp del] mm_k.simps [simp del]
  mm_i.simps [simp del] checksum_loop.simps [simp del]

text \<open>
  \<^verbatim>\<open>static void matrix_mul_test(int M, double *out_time)\<close>. The result is the value left
  in \<^verbatim>\<open>*out_time\<close> together with the new world; the checksum is printed, not returned.
  The three blocks hold \<open>sizeof(double)*n\<close> bytes, computed modulo \<open>2 ^ 64\<close>, hence
  that many bytes divided by 8 entries, with indeterminate content.
\<close>

definition matrix_mul_test :: "(real \<Rightarrow> real) \<Rightarrow> int \<Rightarrow> world \<Rightarrow> fault + real \<times> world" where
  "matrix_mul_test rnd M w =
     (let n = (size_t_of_int M * size_t_of_int M) mod 2 ^ 64;
          bytes = (8 * n) mod 2 ^ 64;
          (okA, w1) = malloc bytes w;
          (okB, w2) = malloc bytes w1;
          (okC, w3) = malloc bytes w2
      in if \<not> okA \<or> \<not> okB \<or> \<not> okC then
           Inr (- 1, eprintf (''malloc failed matrix'' @ [nl]) [] w3)
         else
           (case init_loop rnd n 0 123456789
                   (map (uninit w (mallocs w)) [0..<bytes div 8])
                   (map (uninit w (mallocs w1)) [0..<bytes div 8])
                   (map (uninit w (mallocs w2)) [0..<bytes div 8]) of
              Inl e \<Rightarrow> Inl e
            | Inr (A, B, C) \<Rightarrow>
                (let (t0, w4) = now_seconds w3 in
                 case mm_i rnd M 0 A B C of
                   Inl e \<Rightarrow> Inl e
                 | Inr C' \<Rightarrow>
                     (let (t1, w5) = now_seconds w4;
                          out_time = rnd (t1 - t0)
                      in case checksum_loop rnd M 0 0 C' of
                           Inl e \<Rightarrow> Inl e
                         | Inr checksum \<Rightarrow>
                             Inr (out_time,
                                  printf (''Matrix multiply checksum (sample): %.6f'' @ [nl])
                                    [Dbl_arg checksum] w5)))))"

section \<open>The Mandelbrot rasterizer\<close>

text \<open>
  \<^verbatim>\<open>while(zx*zx + zy*zy <= 4.0 && iter < maxiter){ nx = ...; ny = ...; iter++; }\<close>, entered
  with the point \<open>(zx, zy)\<close> and the count \<open>iter\<close>; the result is the final count.
\<close>

function mandel_iter ::
  "(real \<Rightarrow> real) \<Rightarrow> real \<Rightarrow> real \<Rightarrow> int \<Rightarrow> real \<Rightarrow> real \<Rightarrow> int \<Rightarrow> int" where
  "mandel_iter rnd cx cy maxiter zx zy iter =
     (if rnd (rnd (zx * zx) + rnd (zy * zy)) \<le> 4 \<and> iter < maxiter then
        (let nx = rnd (rnd (rnd (zx * zx) - rnd (zy * zy)) + cx);
             ny = rnd (rnd (rnd (2 * zx) * zy) + cy)
         in mandel_iter rnd cx cy maxiter nx ny (iter + 1))
      else iter)"
  by pat_completeness auto
termination
  by (relation "measure (\<lambda>(rnd, cx, cy, maxiter, zx, zy, iter). nat (maxiter - iter))") auto

declare mandel_iter.simps [simp del]

text \<open>The conversion \<^verbatim>\<open>(int)\<close> of a \<^verbatim>\<open>double\<close>: truncation towards zero.\<close>

definition c_trunc :: "real \<Rightarrow> int" where
  "c_trunc r = (if 0 \<le> r then \<lfloor>r\<rfloor> else \<lceil>r\<rceil>)"

text \<open>
  The colour index \<^verbatim>\<open>(int)(255.0 * iter / (double)maxiter)\<close> and the three channels
  \<^verbatim>\<open>(unsigned char)(c % 256)\<close>, \<^verbatim>\<open>(unsigned char)((c*3) % 256)\<close>,
  \<^verbatim>\<open>(unsigned char)((c*7) % 256)\<close>.
\<close>

definition color_index :: "(real \<Rightarrow> real) \<Rightarrow> int \<Rightarrow> int \<Rightarrow> int" where
  "color_index rnd iter maxiter =
     c_trunc (rnd (rnd (255 * real_of_int iter) / real_of_int maxiter))"

definition color :: "(real \<Rightarrow> real) \<Rightarrow> int \<Rightarrow> int \<Rightarrow> uchar list" where
  "color rnd iter maxiter =
     (if iter = maxiter then [0, 0, 0]
      else
        (let c = color_index rnd iter maxiter
         in [word_of_int (c_mod c 256), word_of_int (c_mod (c * 3) 256),
             word_of_int (c_mod (c * 7) 256)]))"

text \<open>The mapping of the pixel \<open>(x, y)\<close> to the plane, and the iteration count of the pixel.\<close>

definition pixel_cx :: "(real \<Rightarrow> real) \<Rightarrow> int \<Rightarrow> int \<Rightarrow> real" where
  \<comment> \<open>\<^verbatim>\<open>(x - 0.5*width) * (3.5/width) - 0.5\<close>\<close>
  "pixel_cx rnd width x =
     rnd (rnd (rnd (real_of_int x - rnd (0.5 * real_of_int width)) * rnd (3.5 / real_of_int width)) - 0.5)"

definition pixel_cy :: "(real \<Rightarrow> real) \<Rightarrow> int \<Rightarrow> int \<Rightarrow> real" where
  \<comment> \<open>\<^verbatim>\<open>(y - 0.5*height) * (2.0/height)\<close>\<close>
  "pixel_cy rnd height y =
     rnd (rnd (real_of_int y - rnd (0.5 * real_of_int height)) * rnd (2.0 / real_of_int height))"

definition pixel_iter :: "(real \<Rightarrow> real) \<Rightarrow> int \<Rightarrow> int \<Rightarrow> int \<Rightarrow> int \<Rightarrow> int \<Rightarrow> int" where
  "pixel_iter rnd width height maxiter x y =
     mandel_iter rnd (pixel_cx rnd width x) (pixel_cy rnd height y) maxiter 0 0 0"

definition pixel :: "(real \<Rightarrow> real) \<Rightarrow> int \<Rightarrow> int \<Rightarrow> int \<Rightarrow> int \<Rightarrow> int \<Rightarrow> uchar list" where
  \<comment> \<open>the three bytes \<^verbatim>\<open>col\<close> that \<^verbatim>\<open>fwrite(col, 1, 3, f)\<close> appends for the pixel \<open>(x, y)\<close>\<close>
  "pixel rnd width height maxiter x y = color rnd (pixel_iter rnd width height maxiter x y) maxiter"

text \<open>
  \<^verbatim>\<open>for(int x=0;x<width;x++){ ... fwrite(col, 1, 3, f); }\<close>, entered at \<open>x\<close>, and
  \<^verbatim>\<open>for(int y=0;y<height;y++){ ... }\<close>, entered at \<open>y\<close>; \<open>out\<close> is what has been written
  to the file so far.
\<close>

function row_loop ::
  "(real \<Rightarrow> real) \<Rightarrow> int \<Rightarrow> int \<Rightarrow> int \<Rightarrow> int \<Rightarrow> int \<Rightarrow> uchar list \<Rightarrow> uchar list" where
  "row_loop rnd width height maxiter y x out =
     (if x < width then
        row_loop rnd width height maxiter y (x + 1) (out @ pixel rnd width height maxiter x y)
      else out)"
  by pat_completeness auto
termination
  by (relation "measure (\<lambda>(rnd, width, height, maxiter, y, x, out). nat (width - x))") auto

function image_loop ::
  "(real \<Rightarrow> real) \<Rightarrow> int \<Rightarrow> int \<Rightarrow> int \<Rightarrow> int \<Rightarrow> uchar list \<Rightarrow> uchar list" where
  "image_loop rnd width height maxiter y out =
     (if y < height then
        image_loop rnd width height maxiter (y + 1) (row_loop rnd width height maxiter y 0 out)
      else out)"
  by pat_completeness auto
termination
  by (relation "measure (\<lambda>(rnd, width, height, maxiter, y, out). nat (height - y))") auto

declare row_loop.simps [simp del] image_loop.simps [simp del]

text \<open>
  What \<^verbatim>\<open>%d\<close> prints for an \<^verbatim>\<open>int\<close>: the decimal digits, after a minus sign when the
  value is negative (the C library's behaviour, written out).
\<close>

function digits :: "nat \<Rightarrow> string" where
  "digits n =
     (if n < 10 then [''0123456789'' ! n]
      else digits (n div 10) @ [''0123456789'' ! (n mod 10)])"
  by pat_completeness auto
termination
  by (relation "measure (\<lambda>n. n)") auto

declare digits.simps [simp del]

definition show_int :: "int \<Rightarrow> string" where
  "show_int i = (if i < 0 then CHR ''-'' # digits (nat (- i)) else digits (nat i))"

definition ppm_header :: "int \<Rightarrow> int \<Rightarrow> string" where
  \<comment> \<open>the output of \<^verbatim>\<open>fprintf(f, "P6\n%d %d\n255\n", width, height)\<close>\<close>
  "ppm_header width height =
     ''P6'' @ [nl] @ show_int width @ '' '' @ show_int height @ [nl] @ ''255'' @ [nl]"

text \<open>
  \<^verbatim>\<open>static void mandelbrot_ppm(const char *path, int width, int height, int maxiter)\<close>.
  Opening with mode \<^verbatim>\<open>"wb"\<close> replaces the file; every write to the open file is taken to
  succeed (the program does not look at the results of \<^verbatim>\<open>fprintf\<close> and \<^verbatim>\<open>fwrite\<close>).
\<close>

definition mandelbrot_ppm ::
  "(real \<Rightarrow> real) \<Rightarrow> string \<Rightarrow> int \<Rightarrow> int \<Rightarrow> int \<Rightarrow> world \<Rightarrow> world" where
  "mandelbrot_ppm rnd path width height maxiter w =
     (if \<not> openable w path then
        eprintf (''Failed to open %s for writing'' @ [nl]) [Str_arg path] w
      else
        w\<lparr>files := (files w)(path \<mapsto>
             image_loop rnd width height maxiter 0 (map of_char (ppm_header width height)))\<rparr>)"

section \<open>The harness\<close>

definition SIEVE_LIMIT :: int where "SIEVE_LIMIT = 100000"
definition MAT_SIZE :: int where "MAT_SIZE = 140"
definition MAN_WIDTH :: int where "MAN_WIDTH = 400"
definition MAN_HEIGHT :: int where "MAN_HEIGHT = 300"
definition MAN_MAXITER :: int where "MAN_MAXITER = 256"

text \<open>
  \<^verbatim>\<open>int main(int argc, char **argv)\<close> is a straight sequence of three blocks, marked
  \<^verbatim>\<open>// 1) Prime sieve\<close>, \<^verbatim>\<open>// 2) Matrix multiply\<close> and \<^verbatim>\<open>// 3) Mandelbrot PPM\<close> in the source.
  Each block is one definition here, from its progress line to the line that reports its
  result; it returns what the summary needs later. A difference of two clock values is
  rounded like every other operation on \<^verbatim>\<open>double\<close>.
\<close>

definition stage_sieve :: "(real \<Rightarrow> real) \<Rightarrow> world \<Rightarrow> (fault + int \<times> world) option" where
  "stage_sieve rnd w =
     (let w = printf (''[1/3] Running sieve up to %d ...'' @ [nl]) [Int_arg SIEVE_LIMIT] w;
          (t0, w) = now_seconds w
      in case sieve_count_primes SIEVE_LIMIT w of
           None \<Rightarrow> None
         | Some (Inl e) \<Rightarrow> Some (Inl e)
         | Some (Inr (prime_count, w)) \<Rightarrow>
             (let (t1, w) = now_seconds w;
                  w = printf (''Found %d primes up to %d (%.3f s)'' @ [nl])
                        [Int_arg prime_count, Int_arg SIEVE_LIMIT, Dbl_arg (rnd (t1 - t0))] w
              in Some (Inr (prime_count, w))))"

definition stage_matrix :: "(real \<Rightarrow> real) \<Rightarrow> world \<Rightarrow> fault + real \<times> world" where
  "stage_matrix rnd w =
     (let w = printf (''[2/3] Matrix multiply %dx%d ...'' @ [nl])
                [Int_arg MAT_SIZE, Int_arg MAT_SIZE] w;
          (t2, w) = now_seconds w
      in case matrix_mul_test rnd MAT_SIZE w of
           Inl e \<Rightarrow> Inl e
         | Inr (mat_time, w) \<Rightarrow>
             (let (t3, w) = now_seconds w;
                  w = printf (''Matrix multiply took %.3f s (measured %.3f s)'' @ [nl])
                        [Dbl_arg mat_time, Dbl_arg (rnd (t3 - t2))] w
              in Inr (mat_time, w)))"

definition stage_mandelbrot :: "(real \<Rightarrow> real) \<Rightarrow> world \<Rightarrow> real \<times> world" where
  "stage_mandelbrot rnd w =
     (let w = printf (''[3/3] Generating Mandelbrot PPM (%dx%d) ...'' @ [nl])
                [Int_arg MAN_WIDTH, Int_arg MAN_HEIGHT] w;
          (t4, w) = now_seconds w;
          outppm = ''mandelbrot_test.ppm'';
          w = mandelbrot_ppm rnd outppm MAN_WIDTH MAN_HEIGHT MAN_MAXITER w;
          (t5, w) = now_seconds w;
          w = printf (''Mandelbrot wrote %s (%.3f s)'' @ [nl])
                [Str_arg outppm, Dbl_arg (rnd (t5 - t4))] w
      in (rnd (t5 - t4), w))"

text \<open>The result of \<open>main\<close> is the exit status and the final world.\<close>

definition main :: "(real \<Rightarrow> real) \<Rightarrow> world \<Rightarrow> (fault + int \<times> world) option" where
  "main rnd w =
     (let w = printf (''Complex test program start'' @ [nl]) [] w;
          w = printf (''SIEVE_LIMIT=%d MAT_SIZE=%d MAN=%dx%d'' @ [nl])
                [Int_arg SIEVE_LIMIT, Int_arg MAT_SIZE, Int_arg MAN_WIDTH, Int_arg MAN_HEIGHT] w
      in case stage_sieve rnd w of
           None \<Rightarrow> None
         | Some (Inl e) \<Rightarrow> Some (Inl e)
         | Some (Inr (prime_count, w)) \<Rightarrow>
             (case stage_matrix rnd w of
                Inl e \<Rightarrow> Some (Inl e)
              | Inr (mat_time, w) \<Rightarrow>
                  (let (mandel_time, w) = stage_mandelbrot rnd w;
                       w = printf (''All tasks done. Summary:'' @ [nl]) [] w;
                       w = printf ('' primes=%d, mat_time=%.3f s, mandelbrot_time=%.3f s'' @ [nl])
                             [Int_arg prime_count, Dbl_arg mat_time, Dbl_arg mandel_time] w
                   in Some (Inr (0, w)))))"

text \<open>Two concrete worlds: one where every allocation succeeds, one where none does.\<close>

definition plain_world :: world where
  "plain_world = \<lparr>clock = (\<lambda>k. real k), ticks = 0, heap = (\<lambda>k sz. True), mallocs = 0,
     uninit = (\<lambda>k i. 0), openable = (\<lambda>path. True), files = (\<lambda>path. None),
     stdout = [], stderr = []\<rparr>"

definition starved_world :: world where
  "starved_world = plain_world\<lparr>heap := (\<lambda>k sz. False), openable := (\<lambda>path. False)\<rparr>"

text \<open>A world with another clock, other block contents and earlier output.\<close>

definition busy_world :: world where
  "busy_world = plain_world\<lparr>clock := (\<lambda>k. 10 + 3 * real k), ticks := 5, mallocs := 2,
     uninit := (\<lambda>k i. real (k + i)), stdout := [(''earlier output'', [])]\<rparr>"

section \<open>Specification-side notions\<close>

text \<open>Primality, as the specification uses the word: no divisor strictly between 1 and \<open>n\<close>.\<close>

definition is_prime :: "nat \<Rightarrow> bool" where
  "is_prime n \<longleftrightarrow> 1 < n \<and> (\<forall>d \<in> {2..<n}. \<not> d dvd n)"

text \<open>
  The invariant of the outer sieve loop on entry with candidate \<open>p\<close>: an index is still
  flagged exactly when no prime below \<open>p\<close> has struck it.
\<close>

definition sieved :: "int \<Rightarrow> nat \<Rightarrow> uchar list \<Rightarrow> bool" where
  "sieved limit p a \<longleftrightarrow> int (length a) = limit + 1 \<and>
     (\<forall>i < length a. a ! i \<noteq> 0 \<longleftrightarrow>
        2 \<le> i \<and> (\<forall>d. is_prime d \<and> d < p \<and> d dvd i \<longrightarrow> i < d * d))"

text \<open>
  What IEEE 754 binary64 rounding to nearest guarantees where the program relies on it:
  rounding is monotone, integers up to \<open>2\<^sup>5\<^sup>3\<close> in magnitude are exact, and in the normal
  range the relative error is at most \<open>2\<^sup>-\<^sup>5\<^sup>3\<close>.
\<close>

definition fp_model :: "(real \<Rightarrow> real) \<Rightarrow> bool" where
  "fp_model rnd \<longleftrightarrow>
     (\<forall>x y. x \<le> y \<longrightarrow> rnd x \<le> rnd y) \<and>
     (\<forall>k::int. \<bar>k\<bar> \<le> 2 ^ 53 \<longrightarrow> rnd (real_of_int k) = real_of_int k) \<and>
     (\<forall>x. 1 / 2 ^ 1022 \<le> \<bar>x\<bar> \<and> \<bar>x\<bar> \<le> 2 ^ 1023 \<longrightarrow> \<bar>rnd x - x\<bar> \<le> \<bar>x\<bar> / 2 ^ 53)"

text \<open>
  The matrices that the initialisation generates from the seed 123456789: entry \<open>i\<close> of
  \<open>A\<close> comes from the generator's state after \<open>2i + 1\<close> steps, entry \<open>i\<close> of \<open>B\<close> from the
  state after \<open>2i + 2\<close> steps.
\<close>

definition gen_A :: "(real \<Rightarrow> real) \<Rightarrow> nat \<Rightarrow> real list" where
  "gen_A rnd n = map (\<lambda>i. sample rnd ((lcg ^^ (2 * i + 1)) 123456789)) [0..<n]"

definition gen_B :: "(real \<Rightarrow> real) \<Rightarrow> nat \<Rightarrow> real list" where
  "gen_B rnd n = map (\<lambda>i. sample rnd ((lcg ^^ (2 * i + 2)) 123456789)) [0..<n]"

text \<open>
  The reference multiplication of the specification: a plain triple loop in the order
  \<open>i\<close>, \<open>j\<close>, \<open>k\<close>, each entry accumulated from zero with the same rounded operations.
\<close>

definition dot :: "(real \<Rightarrow> real) \<Rightarrow> nat \<Rightarrow> real list \<Rightarrow> real list \<Rightarrow> nat \<Rightarrow> nat \<Rightarrow> real" where
  "dot rnd n A B i j = foldl (\<lambda>s k. rnd (s + rnd (A ! (i * n + k) * B ! (k * n + j)))) 0 [0..<n]"

definition reference_mul :: "(real \<Rightarrow> real) \<Rightarrow> nat \<Rightarrow> real list \<Rightarrow> real list \<Rightarrow> real list" where
  "reference_mul rnd n A B = concat (map (\<lambda>i. map (\<lambda>j. dot rnd n A B i j) [0..<n]) [0..<n])"

text \<open>
  The rows that the checksum samples, \<open>0, s, 2s, \<dots>\<close> below \<open>n\<close> with \<open>s = max 1 (n div 8)\<close>,
  and the checksum of a matrix \<open>C\<close> as the specification states it.
\<close>

definition sampled_rows :: "nat \<Rightarrow> nat list" where
  "sampled_rows n =
     (let s = max 1 (n div 8) in map (\<lambda>k. k * s) [0..<(n + s - 1) div s])"

definition spec_checksum :: "(real \<Rightarrow> real) \<Rightarrow> nat \<Rightarrow> real list \<Rightarrow> real" where
  "spec_checksum rnd n C =
     foldl (\<lambda>total i. rnd (total + C ! (i * n + i mod n))) 0 (sampled_rows n)"

text \<open>Whether the three allocations of \<open>matrix_mul_test\<close> succeed in a world.\<close>

definition matrix_allocated :: "int \<Rightarrow> world \<Rightarrow> bool" where
  "matrix_allocated M w \<longleftrightarrow>
     (let bytes = (8 * ((size_t_of_int M * size_t_of_int M) mod 2 ^ 64)) mod 2 ^ 64
      in heap w (mallocs w) bytes \<and> heap w (Suc (mallocs w)) bytes
         \<and> heap w (Suc (Suc (mallocs w))) bytes)"

text \<open>
  The checksum that \<open>matrix_mul_test\<close> computes once its three blocks are allocated,
  written without the world: the initialisation needs \<open>n\<close> entries in blocks that hold
  \<open>cap\<close>, and then produces the generated matrices whatever the blocks held before.
\<close>

definition checksum_fmt :: string where
  "checksum_fmt = ''Matrix multiply checksum (sample): %.6f'' @ [nl]"

definition matrix_checksum :: "(real \<Rightarrow> real) \<Rightarrow> int \<Rightarrow> fault + real" where
  "matrix_checksum rnd M =
     (let n = (size_t_of_int M * size_t_of_int M) mod 2 ^ 64;
          cap = ((8 * n) mod 2 ^ 64) div 8
      in if cap < n then Inl Out_Of_Bounds
         else
           (case mm_i rnd M 0 (gen_A rnd n) (gen_B rnd n) (replicate n 0) of
              Inl e \<Rightarrow> Inl e
            | Inr C \<Rightarrow> checksum_loop rnd M 0 0 C))"

text \<open>
  The iteration \<open>z \<leftarrow> z\<^sup>2 + c\<close> from \<open>z = 0\<close> as the specification states it, in components
  and with the rounded operations of the program: \<open>orbit rnd cx cy k\<close> is \<open>z\<close> after \<open>k\<close>
  steps, and \<open>norm2 rnd z\<close> is \<open>|z|\<^sup>2\<close>.
\<close>

fun orbit :: "(real \<Rightarrow> real) \<Rightarrow> real \<Rightarrow> real \<Rightarrow> nat \<Rightarrow> real \<times> real" where
  "orbit rnd cx cy 0 = (0, 0)"
| "orbit rnd cx cy (Suc k) =
     (case orbit rnd cx cy k of
        (zx, zy) \<Rightarrow>
          (rnd (rnd (rnd (zx * zx) - rnd (zy * zy)) + cx), rnd (rnd (rnd (2 * zx) * zy) + cy)))"

definition norm2 :: "(real \<Rightarrow> real) \<Rightarrow> real \<times> real \<Rightarrow> real" where
  "norm2 rnd z = rnd (rnd (fst z * fst z) + rnd (snd z * snd z))"

text \<open>The pixels of the image in the order in which they are written: rows from the top,
  each row from the left.\<close>

definition raster :: "(real \<Rightarrow> real) \<Rightarrow> int \<Rightarrow> int \<Rightarrow> int \<Rightarrow> uchar list" where
  "raster rnd width height maxiter =
     concat (map (\<lambda>y. concat (map (\<lambda>x. pixel rnd width height maxiter x y) [0..width - 1]))
               [0..height - 1])"

text \<open>
  The format strings of the lines that a run of \<open>main\<close> prints, in order; the checksum line
  is there when the matrix kernel obtained its blocks.
\<close>

definition main_formats :: "bool \<Rightarrow> string list" where
  "main_formats mat_ok =
     [''Complex test program start'' @ [nl],
      ''SIEVE_LIMIT=%d MAT_SIZE=%d MAN=%dx%d'' @ [nl],
      ''[1/3] Running sieve up to %d ...'' @ [nl],
      ''Found %d primes up to %d (%.3f s)'' @ [nl],
      ''[2/3] Matrix multiply %dx%d ...'' @ [nl]]
     @ (if mat_ok then [checksum_fmt] else [])
     @ [''Matrix multiply took %.3f s (measured %.3f s)'' @ [nl],
        ''[3/3] Generating Mandelbrot PPM (%dx%d) ...'' @ [nl],
        ''Mandelbrot wrote %s (%.3f s)'' @ [nl],
        ''All tasks done. Summary:'' @ [nl],
        '' primes=%d, mat_time=%.3f s, mandelbrot_time=%.3f s'' @ [nl]]"

section \<open>The sieve counts the primes\<close>

lemma is_prime_iff: "is_prime n \<longleftrightarrow> 1 < n \<and> (\<forall>d. d dvd n \<longrightarrow> d = 1 \<or> d = n)"
proof
  assume p: "is_prime n"
  then have n: "1 < n" and nd: "\<And>d. 2 \<le> d \<Longrightarrow> d < n \<Longrightarrow> \<not> d dvd n"
    by (auto simp: is_prime_def)
  have "d = 1 \<or> d = n" if "d dvd n" for d
  proof -
    from that n have "d \<le> n" by (auto intro: dvd_imp_le)
    moreover from that n have "d \<noteq> 0" by (cases "d = 0") auto
    ultimately have "d \<le> n" "d \<noteq> 0" by auto
    with nd [of d] that show ?thesis by (cases "d = 1"; cases "d = n") auto
  qed
  with n show "1 < n \<and> (\<forall>d. d dvd n \<longrightarrow> d = 1 \<or> d = n)" by blast
next
  assume "1 < n \<and> (\<forall>d. d dvd n \<longrightarrow> d = 1 \<or> d = n)"
  then show "is_prime n" by (auto simp: is_prime_def)
qed

lemma prime_factor_le_sqrt:
  assumes "2 \<le> n"
  shows "\<exists>d. is_prime d \<and> d dvd n \<and> (\<not> is_prime n \<longrightarrow> d * d \<le> n)"
proof -
  define P where "P d \<longleftrightarrow> 2 \<le> d \<and> d dvd n" for d
  define d where "d = (LEAST d. P d)"
  have "P n" using assms by (simp add: P_def)
  then have Pd: "P d" and least: "\<And>e. P e \<Longrightarrow> d \<le> e"
    unfolding d_def by (auto intro: LeastI Least_le)
  have d2: "2 \<le> d" and dn: "d dvd n" using Pd by (auto simp: P_def)
  have "is_prime d"
    unfolding is_prime_def
  proof (intro conjI ballI notI)
    show "1 < d" using d2 by simp
  next
    fix e assume e: "e \<in> {2..<d}" and "e dvd d"
    then have "P e" using dn by (auto simp: P_def intro: dvd_trans)
    from least [OF this] e show False by simp
  qed
  moreover have "d * d \<le> n" if np: "\<not> is_prime n"
  proof -
    from dn obtain m where m: "n = d * m" by (auto simp: dvd_def)
    have "m \<noteq> 0" using m assms by (cases m) auto
    moreover have "m \<noteq> 1" using m np \<open>is_prime d\<close> by auto
    ultimately have "2 \<le> m" by simp
    moreover have "m dvd n" using m by simp
    ultimately have "P m" by (simp add: P_def)
    from least [OF this] have "d * d \<le> d * m" by simp
    then show ?thesis using m by simp
  qed
  ultimately show ?thesis using dn by blast
qed


lemma mark_multiples_spec:
  assumes "0 < p" and "0 \<le> q" and "int (length a) = limit + 1" and "limit + p \<le> INT_MAX"
  shows "\<exists>a'. mark_multiples limit p q a = Some (Inr a') \<and> length a' = length a \<and>
           (\<forall>i < length a. a' ! i = (if q \<le> int i \<and> p dvd (int i - q) then 0 else a ! i))"
  using assms
proof (induction "nat (limit + 1 - q)" arbitrary: q a rule: less_induct)
  case less
  show ?case
  proof (cases "q \<le> limit")
    case False
    then have "mark_multiples limit p q a = Some (Inr a)"
      by (subst mark_multiples.simps) simp
    moreover have "\<not> q \<le> int i" if "i < length a" for i
      using that False less.prems(3) by linarith
    ultimately show ?thesis by auto
  next
    case True
    let ?b = "a[nat q := 0]"
    have inb: "nat q < length a" using True less.prems by linarith
    have noov: "\<not> (INT_MAX < q + p \<or> q + p < - INT_MAX - 1)"
      using True less.prems by (simp add: INT_MAX_def)
    have step: "mark_multiples limit p q a = mark_multiples limit p (q + p) ?b"
      by (subst mark_multiples.simps) (use True inb noov less.prems(2) in simp)
    have "nat (limit + 1 - (q + p)) < nat (limit + 1 - q)"
      using True less.prems(1) by linarith
    moreover have "0 \<le> q + p" using less.prems(1,2) by simp
    moreover have "int (length ?b) = limit + 1" using less.prems(3) by simp
    ultimately have "\<exists>a'. mark_multiples limit p (q + p) ?b = Some (Inr a') \<and> length a' = length ?b \<and>
           (\<forall>i < length ?b. a' ! i = (if q + p \<le> int i \<and> p dvd (int i - (q + p)) then 0 else ?b ! i))"
      using less.prems(1,4) by (intro less.hyps)
    then obtain a' where a': "mark_multiples limit p (q + p) ?b = Some (Inr a')"
        "length a' = length ?b"
        "\<forall>i < length ?b. a' ! i = (if q + p \<le> int i \<and> p dvd (int i - (q + p)) then 0 else ?b ! i)"
      by blast
    have "a' ! i = (if q \<le> int i \<and> p dvd (int i - q) then 0 else a ! i)" if i: "i < length a" for i
    proof (cases "int i = q")
      case True
      then have iq: "i = nat q" by simp
      have "a' ! nat q = (if q + p \<le> int (nat q) \<and> p dvd (int (nat q) - (q + p)) then 0 else ?b ! nat q)"
        using a'(3) inb by simp
      then have "a' ! nat q = 0"
        using inb less.prems(1,2) by simp
      then show ?thesis unfolding iq using less.prems(2) by simp
    next
      case False
      then have ne: "i \<noteq> nat q" using less.prems(2) by auto
      have "(q + p \<le> int i \<and> p dvd (int i - (q + p))) \<longleftrightarrow> (q \<le> int i \<and> p dvd (int i - q))"
      proof -
        have d: "p dvd (int i - (q + p)) \<longleftrightarrow> p dvd (int i - q)"
        proof -
          have "p dvd (int i - (q + p)) + p \<longleftrightarrow> p dvd (int i - (q + p))"
            by (rule dvd_add_triv_right_iff)
          moreover have "(int i - (q + p)) + p = int i - q" by simp
          ultimately show ?thesis by simp
        qed
        have "q + p \<le> int i" if "q \<le> int i" "p dvd (int i - q)"
        proof -
          from that(2) obtain k where k: "int i - q = p * k" by (auto simp: dvd_def)
          have "0 < p * k" using that(1) False k by linarith
          then have "0 < k" using less.prems(1) by (simp add: zero_less_mult_iff)
          then have "p * 1 \<le> p * k" using less.prems(1) by (intro mult_left_mono) auto
          then show ?thesis using k by linarith
        qed
        moreover have "q \<le> int i" if "q + p \<le> int i" using that less.prems(1) by linarith
        ultimately show ?thesis using d by blast
      qed
      with a'(3) i ne show ?thesis by simp
    qed
    with a' step show ?thesis by auto
  qed
qed


lemma unmarked_iff_prime:
  assumes "2 \<le> n" and "n < p * p"
  shows "(\<forall>d. is_prime d \<and> d < p \<and> d dvd n \<longrightarrow> n < d * d) \<longleftrightarrow> is_prime n"
proof
  assume a: "\<forall>d. is_prime d \<and> d < p \<and> d dvd n \<longrightarrow> n < d * d"
  show "is_prime n"
  proof (rule ccontr)
    assume np: "\<not> is_prime n"
    from prime_factor_le_sqrt [OF assms(1)] np
    obtain d where d: "is_prime d" "d dvd n" "d * d \<le> n" by blast
    have "d < p"
    proof (rule ccontr)
      assume "\<not> d < p"
      then have "p * p \<le> d * d" by (intro mult_le_mono) auto
      with d(3) assms(2) show False by simp
    qed
    with a d show False by fastforce
  qed
next
  assume pn: "is_prime n"
  show "\<forall>d. is_prime d \<and> d < p \<and> d dvd n \<longrightarrow> n < d * d"
  proof (intro allI impI)
    fix d assume d: "is_prime d \<and> d < p \<and> d dvd n"
    then have "d \<noteq> 1" by (auto simp: is_prime_def)
    with d pn have "d = n" by (auto simp: is_prime_iff)
    moreover have "n * 1 < n * n" using assms(1) by (intro mult_strict_left_mono) auto
    ultimately show "n < d * d" by simp
  qed
qed

lemma flag_iff_prime:
  assumes "2 \<le> n"
  shows "(\<forall>d. is_prime d \<and> d < n \<and> d dvd n \<longrightarrow> n < d * d) \<longleftrightarrow> is_prime n"
proof -
  have "n * 1 < n * n" using assms by (intro mult_strict_left_mono) auto
  then show ?thesis using unmarked_iff_prime [OF assms, of n] by simp
qed

lemma sieved_skip:
  assumes "sieved limit p a" and "\<not> is_prime p"
  shows "sieved limit (Suc p) a"
proof -
  have "(is_prime d \<and> d < Suc p \<and> d dvd i) \<longleftrightarrow> (is_prime d \<and> d < p \<and> d dvd i)" for d i
    using assms(2) by (auto simp: less_Suc_eq)
  then show ?thesis using assms(1) by (simp add: sieved_def)
qed

lemma sieved_mark:
  assumes "sieved limit p a" and "is_prime p" and "length b = length a"
    and "\<forall>i < length a. b ! i = (if p * p \<le> i \<and> p dvd i then 0 else a ! i)"
  shows "sieved limit (Suc p) b"
  unfolding sieved_def
proof (intro conjI allI impI)
  show "int (length b) = limit + 1" using assms(1,3) by (simp add: sieved_def)
next
  fix i assume "i < length b"
  then have i: "i < length a" using assms(3) by simp
  have inv: "a ! i \<noteq> 0 \<longleftrightarrow> 2 \<le> i \<and> (\<forall>d. is_prime d \<and> d < p \<and> d dvd i \<longrightarrow> i < d * d)"
    using assms(1) i by (simp add: sieved_def)
  have b: "b ! i \<noteq> 0 \<longleftrightarrow> \<not> (p * p \<le> i \<and> p dvd i) \<and> a ! i \<noteq> 0"
    using assms(4) i by simp
  have "(\<forall>d. is_prime d \<and> d < Suc p \<and> d dvd i \<longrightarrow> i < d * d) \<longleftrightarrow>
        (\<forall>d. is_prime d \<and> d < p \<and> d dvd i \<longrightarrow> i < d * d) \<and> (p dvd i \<longrightarrow> i < p * p)"
    using assms(2) by (auto simp: less_Suc_eq)
  with inv b show "b ! i \<noteq> 0 \<longleftrightarrow> 2 \<le> i \<and> (\<forall>d. is_prime d \<and> d < Suc p \<and> d dvd i \<longrightarrow> i < d * d)"
    by auto
qed


lemma int_le_square: "(p::int) \<le> p * p"
proof (cases "p \<le> 0")
  case True
  then have "p \<le> 0" "0 \<le> p * p" by (auto simp: zero_le_mult_iff)
  then show ?thesis by linarith
next
  case False
  then have "p * 1 \<le> p * p" by (intro mult_left_mono) auto
  then show ?thesis by simp
qed

lemma sieve_loop_spec:
  assumes "2 \<le> p" and "(p - 1) * (p - 1) \<le> limit" and "limit < 2147395600"
    and "sieved limit (nat p) a"
  shows "\<exists>a'. sieve_loop limit p a = Some (Inr a') \<and> length a' = length a \<and>
           (\<forall>i < length a'. a' ! i \<noteq> 0 \<longleftrightarrow> is_prime i)"
  using assms
proof (induction "nat (limit + 1 - p)" arbitrary: p a rule: less_induct)
  case less
  have len: "int (length a) = limit + 1"
    and inv: "\<And>i. i < length a \<Longrightarrow>
      (a ! i \<noteq> 0) = (2 \<le> i \<and> (\<forall>d. is_prime d \<and> d < nat p \<and> d dvd i \<longrightarrow> i < d * d))"
    using less.prems(4) by (auto simp: sieved_def)
  have p_le: "p \<le> 46340"
  proof (rule ccontr)
    assume "\<not> p \<le> 46340"
    then have "46340 \<le> p - 1" by simp
    then have "46340 * 46340 \<le> (p - 1) * (p - 1)" by (intro mult_mono) auto
    with less.prems(2,3) show False by simp
  qed
  have "p * p \<le> 46340 * 46340" using p_le less.prems(1) by (intro mult_mono) auto
  then have noov: "\<not> INT_MAX < p * p" by (simp add: INT_MAX_def)
  show ?case
  proof (cases "p * p \<le> limit")
    case False
    have "sieve_loop limit p a = Some (Inr a)"
      by (subst sieve_loop.simps) (use False noov in simp)
    moreover have "(a ! i \<noteq> 0) = is_prime i" if i: "i < length a" for i
    proof (cases "2 \<le> i")
      case True
      have "int i < p * p" using i len False by linarith
      then have "int i < int (nat p * nat p)" using less.prems(1) by simp
      then have "i < nat p * nat p" by (simp only: of_nat_less_iff)
      from unmarked_iff_prime [OF True this] inv [OF i] True show ?thesis by simp
    next
      case False
      then have "\<not> is_prime i" by (auto simp: is_prime_def)
      with inv [OF i] False show ?thesis by simp
    qed
    ultimately show ?thesis by auto
  next
    case True
    have pl: "p \<le> limit" using True int_le_square [of p] by linarith
    have inb: "0 \<le> p \<and> nat p < length a" using pl len less.prems(1) by linarith
    have flag: "a ! nat p \<noteq> 0 \<longleftrightarrow> is_prime (nat p)"
    proof -
      have "2 \<le> nat p" using less.prems(1) by simp
      from flag_iff_prime [OF this] inv [of "nat p"] inb this show ?thesis by simp
    qed
    have lt: "nat (limit + 1 - (p + 1)) < nat (limit + 1 - p)" using pl by linarith
    have p1: "2 \<le> p + 1" "(p + 1 - 1) * (p + 1 - 1) \<le> limit"
      using less.prems(1) True by auto
    have np1: "nat (p + 1) = Suc (nat p)" using less.prems(1) by simp
    show ?thesis
    proof (cases "a ! nat p \<noteq> 0")
      case False
      then have "sieved limit (nat (p + 1)) a"
        using sieved_skip [OF less.prems(4)] flag np1 by simp
      from less.hyps [OF lt p1 less.prems(3) this]
      have "\<exists>a'. sieve_loop limit (p + 1) a = Some (Inr a') \<and> length a' = length a \<and>
           (\<forall>i < length a'. a' ! i \<noteq> 0 \<longleftrightarrow> is_prime i)" .
      moreover have "sieve_loop limit p a = sieve_loop limit (p + 1) a"
        by (subst sieve_loop.simps) (use True noov inb False in simp)
      ultimately show ?thesis by simp
    next
      case marked: True
      have "0 < p" "0 \<le> p * p" "limit + p \<le> INT_MAX"
        using less.prems(1,3) p_le by (auto simp: INT_MAX_def)
      from mark_multiples_spec [OF this(1,2) len this(3)]
      obtain b where b: "mark_multiples limit p (p * p) a = Some (Inr b)" "length b = length a"
        "\<forall>i < length a. b ! i = (if p * p \<le> int i \<and> p dvd (int i - p * p) then 0 else a ! i)"
        by blast
      have "(p * p \<le> int i \<and> p dvd (int i - p * p)) \<longleftrightarrow> (nat p * nat p \<le> i \<and> nat p dvd i)" for i
      proof -
        have pp: "p = int (nat p)" using less.prems(1) by simp
        have "p dvd (int i - p * p) \<longleftrightarrow> p dvd int i"
          by (simp add: dvd_diff_left_iff)
        also have "\<dots> \<longleftrightarrow> int (nat p) dvd int i" using pp by simp
        also have "\<dots> \<longleftrightarrow> nat p dvd i" by (rule int_dvd_int_iff)
        finally have d: "p dvd (int i - p * p) \<longleftrightarrow> nat p dvd i" .
        have "p * p \<le> int i \<longleftrightarrow> int (nat p * nat p) \<le> int i" using less.prems(1) by simp
        also have "\<dots> \<longleftrightarrow> nat p * nat p \<le> i" by (simp only: of_nat_le_iff)
        finally show ?thesis using d by simp
      qed
      with b(3) have "\<forall>i < length a. b ! i = (if nat p * nat p \<le> i \<and> nat p dvd i then 0 else a ! i)"
        by simp
      from sieved_mark [OF less.prems(4) _ b(2) this] marked flag np1
      have "sieved limit (nat (p + 1)) b" by simp
      from less.hyps [OF lt p1 less.prems(3) this] b(2)
      have "\<exists>a'. sieve_loop limit (p + 1) b = Some (Inr a') \<and> length a' = length a \<and>
           (\<forall>i < length a'. a' ! i \<noteq> 0 \<longleftrightarrow> is_prime i)" by simp
      moreover have "sieve_loop limit p a = sieve_loop limit (p + 1) b"
        by (subst sieve_loop.simps) (use True noov inb marked b(1) in simp)
      ultimately show ?thesis by simp
    qed
  qed
qed

lemma count_loop_spec:
  assumes "int (length a) = limit + 1" and "0 \<le> i" and "limit < INT_MAX"
  shows "count_loop limit i cnt a =
           Inr (cnt + int (card {k. i \<le> int k \<and> int k \<le> limit \<and> a ! k \<noteq> 0}))"
  using assms
proof (induction "nat (limit + 1 - i)" arbitrary: i cnt rule: less_induct)
  case less
  show ?case
  proof (cases "i \<le> limit")
    case False
    then have "{k. i \<le> int k \<and> int k \<le> limit \<and> a ! k \<noteq> 0} = {}" by auto
    then have "int (card {k. i \<le> int k \<and> int k \<le> limit \<and> a ! k \<noteq> 0}) = 0"
      by (simp only: card.empty of_nat_0)
    moreover have "count_loop limit i cnt a = Inr cnt"
      by (subst count_loop.simps) (use False in simp)
    ultimately show ?thesis by simp
  next
    case True
    let ?S = "\<lambda>i. {k. i \<le> int k \<and> int k \<le> limit \<and> a ! k \<noteq> 0}"
    have inb: "0 \<le> i \<and> nat i < length a" using True less.prems by linarith
    have noov: "\<not> INT_MAX < i + 1" using True less.prems(3) by simp
    have step: "count_loop limit i cnt a =
        count_loop limit (i + 1) (if a ! nat i \<noteq> 0 then cnt + 1 else cnt) a"
      by (subst count_loop.simps) (use True inb noov in simp)
    have lt: "nat (limit + 1 - (i + 1)) < nat (limit + 1 - i)" using True by linarith
    have fin: "finite (?S (i + 1))"
      by (rule finite_subset [of _ "{..nat limit}"]) auto
    have notin: "nat i \<notin> ?S (i + 1)" using less.prems(2) by simp
    have split: "?S i = (if a ! nat i \<noteq> 0 then insert (nat i) (?S (i + 1)) else ?S (i + 1))"
    proof -
      have "i \<le> int k \<longleftrightarrow> k = nat i \<or> i + 1 \<le> int k" for k
        using less.prems(2) by linarith
      then show ?thesis using True less.prems(2) by auto
    qed
    have "card (insert (nat i) (?S (i + 1))) = Suc (card (?S (i + 1)))"
      using fin notin by (rule card_insert_disjoint)
    then have "int (card (?S i)) = (if a ! nat i \<noteq> 0 then 1 else 0) + int (card (?S (i + 1)))"
      unfolding split by (cases "a ! nat i \<noteq> 0") (simp_all only: if_True if_False of_nat_Suc, simp_all)
    moreover have "count_loop limit (i + 1) (if a ! nat i \<noteq> 0 then cnt + 1 else cnt) a =
        Inr ((if a ! nat i \<noteq> 0 then cnt + 1 else cnt) + int (card (?S (i + 1))))"
      using less.prems(2) by (intro less.hyps [OF lt less.prems(1) _ less.prems(3)]) simp
    ultimately show ?thesis using step by simp
  qed
qed


lemma sieved_init:
  assumes "1 \<le> limit"
  shows "sieved limit 2 ((replicate (nat (limit + 1)) 1)[1 := 0, 0 := 0])"
proof -
  have "\<not> (is_prime d \<and> d < 2)" for d by (auto simp: is_prime_def)
  then have "(\<forall>d. is_prime d \<and> d < 2 \<and> d dvd i \<longrightarrow> i < d * d) \<longleftrightarrow> True" for i by blast
  moreover have "((replicate (nat (limit + 1)) (1::uchar))[1 := 0, 0 := 0]) ! i \<noteq> 0 \<longleftrightarrow> 2 \<le> i"
    if "i < nat (limit + 1)" for i
    using that by (cases "i = 0"; cases "i = 1") (auto simp: nth_list_update)
  ultimately show ?thesis using assms by (simp add: sieved_def)
qed

lemma sieve_run_spec:
  assumes "1 \<le> limit" and "limit < 2147395600"
  shows "sieve_run limit (replicate (nat (limit + 1)) 1) =
           Some (Inr (int (card {k. 2 \<le> k \<and> int k \<le> limit \<and> is_prime k})))"
proof -
  let ?a = "(replicate (nat (limit + 1)) (1::uchar))[1 := 0, 0 := 0]"
  have "sieved limit (nat 2) ?a" using sieved_init [OF assms(1)] by simp
  from sieve_loop_spec [OF _ _ assms(2) this] assms(1)
  obtain a' where a': "sieve_loop limit 2 ?a = Some (Inr a')" "length a' = length ?a"
    "\<forall>i < length a'. a' ! i \<noteq> 0 \<longleftrightarrow> is_prime i" by auto
  have len: "int (length a') = limit + 1" using a'(2) assms(1) by simp
  have "limit < INT_MAX" using assms(2) by (simp add: INT_MAX_def)
  from count_loop_spec [OF len _ this, of 2 0]
  have "count_loop limit 2 0 a' = Inr (int (card {k. 2 \<le> int k \<and> int k \<le> limit \<and> a' ! k \<noteq> 0}))"
    by simp
  moreover have "{k. 2 \<le> int k \<and> int k \<le> limit \<and> a' ! k \<noteq> 0} = {k. 2 \<le> k \<and> int k \<le> limit \<and> is_prime k}"
  proof -
    have "a' ! k \<noteq> 0 \<longleftrightarrow> is_prime k" if "int k \<le> limit" for k
    proof -
      from that len have "k < length a'" by linarith
      with a'(3) show ?thesis by blast
    qed
    then show ?thesis by auto
  qed
  moreover have "\<not> length (replicate (nat (limit + 1)) (1::uchar)) < 2" using assms(1) by simp
  ultimately show ?thesis using a'(1) by (simp add: sieve_run_def)
qed

lemma size_t_of_int_small: "0 \<le> n \<Longrightarrow> n < 2 ^ 64 \<Longrightarrow> size_t_of_int n = nat n"
  by (simp add: size_t_of_int_def)

lemma sieve_count_primes_spec:
  assumes "1 \<le> limit" and "limit < 2147395600"
    and "heap w (mallocs w) (size_t_of_int (limit + 1))"
  shows "sieve_count_primes limit w =
           Some (Inr (int (card {k. 2 \<le> k \<and> int k \<le> limit \<and> is_prime k}),
                      w\<lparr>mallocs := Suc (mallocs w)\<rparr>))"
proof -
  have sz: "size_t_of_int (limit + 1) = nat (limit + 1)"
    using assms(1,2) by (intro size_t_of_int_small) auto
  have "\<not> INT_MAX < limit + 1" using assms(2) by (simp add: INT_MAX_def)
  then show ?thesis
    using assms(3) sieve_run_spec [OF assms(1,2)]
    by (simp add: sieve_count_primes_def malloc_def sz)
qed


lemma sieve_loop_overflow:
  assumes "2147395600 \<le> limit" and "limit + 46340 \<le> INT_MAX" and "2 \<le> p" and "p \<le> 46341"
    and "int (length a) = limit + 1"
  shows "sieve_loop limit p a = Some (Inl Signed_Overflow)"
  using assms(3-5)
proof (induction "nat (46341 - p)" arbitrary: p a rule: less_induct)
  case less
  show ?case
  proof (cases "p = 46341")
    case True
    then show ?thesis by (subst sieve_loop.simps) (simp add: INT_MAX_def)
  next
    case False
    then have p_le: "p \<le> 46340" using less.prems(2) by simp
    have "p * p \<le> 46340 * 46340" using p_le less.prems(1) by (intro mult_mono) auto
    then have noov: "\<not> INT_MAX < p * p" and enter: "p * p \<le> limit"
      using assms(1) by (auto simp: INT_MAX_def)
    have inb: "0 \<le> p \<and> nat p < length a"
      using less.prems(1,3) p_le assms(1) by linarith
    have lt: "nat (46341 - (p + 1)) < nat (46341 - p)" using p_le by linarith
    have p1: "2 \<le> p + 1" "p + 1 \<le> 46341" using less.prems(1) p_le by auto
    show ?thesis
    proof (cases "a ! nat p \<noteq> 0")
      case False
      have "sieve_loop limit p a = sieve_loop limit (p + 1) a"
        by (subst sieve_loop.simps) (use enter noov inb False in simp)
      with less.hyps [OF lt p1 less.prems(3)] show ?thesis by simp
    next
      case True
      have "0 < p" "0 \<le> p * p" "limit + p \<le> INT_MAX"
        using less.prems(1) p_le assms(2) by auto
      from mark_multiples_spec [OF this(1,2) less.prems(3) this(3)]
      obtain b where b: "mark_multiples limit p (p * p) a = Some (Inr b)" "length b = length a"
        by blast
      have "sieve_loop limit p a = sieve_loop limit (p + 1) b"
        by (subst sieve_loop.simps) (use enter noov inb True b(1) in simp)
      moreover have "int (length b) = limit + 1" using b(2) less.prems(3) by simp
      ultimately show ?thesis using less.hyps [OF lt p1] by simp
    qed
  qed
qed

lemma sieve_count_primes_overflow:
  assumes "2147395600 \<le> limit" and "limit + 46340 \<le> INT_MAX"
    and "heap w (mallocs w) (size_t_of_int (limit + 1))"
  shows "sieve_count_primes limit w = Some (Inl Signed_Overflow)"
proof -
  have sz: "size_t_of_int (limit + 1) = nat (limit + 1)"
    using assms(1,2) by (intro size_t_of_int_small) (auto simp: INT_MAX_def)
  let ?a = "(replicate (nat (limit + 1)) (1::uchar))[1 := 0, 0 := 0]"
  have "int (length ?a) = limit + 1" using assms(1) by simp
  from sieve_loop_overflow [OF assms(1,2) _ _ this, of 2]
  have "sieve_loop limit 2 ?a = Some (Inl Signed_Overflow)" by simp
  moreover have "\<not> length (replicate (nat (limit + 1)) (1::uchar)) < 2" using assms(1) by simp
  ultimately have "sieve_run limit (replicate (nat (limit + 1)) 1) = Some (Inl Signed_Overflow)"
    by (simp add: sieve_run_def)
  moreover have "\<not> INT_MAX < limit + 1" using assms(2) by simp
  ultimately show ?thesis
    using assms(3) by (simp add: sieve_count_primes_def malloc_def sz)
qed


lemma sieve_run_1: "sieve_run 1 (replicate 2 1) = Some (Inr 0)"
  by code_simp

lemma sieve_run_10: "sieve_run 10 (replicate 11 1) = Some (Inr 4)"
  by code_simp

lemma sieve_run_100: "sieve_run 100 (replicate 101 1) = Some (Inr 25)"
  by code_simp

lemma sieve_count_primes_unfold:
  assumes "0 \<le> limit" and "limit < INT_MAX" and "heap w (mallocs w) (size_t_of_int (limit + 1))"
  shows "sieve_count_primes limit w =
           map_option (map_sum id (\<lambda>cnt. (cnt, w\<lparr>mallocs := Suc (mallocs w)\<rparr>)))
             (sieve_run limit (replicate (nat (limit + 1)) 1))"
proof -
  have sz: "size_t_of_int (limit + 1) = nat (limit + 1)"
    using assms(1,2) by (intro size_t_of_int_small) (auto simp: INT_MAX_def)
  have "\<not> INT_MAX < limit + 1" using assms(2) by simp
  then show ?thesis
    using assms(3)
    by (simp add: sieve_count_primes_def malloc_def sz split: option.splits sum.splits)
qed

text \<open>
  C9, amended. For every \<open>limit\<close> with \<open>1 \<le> limit < 2147395600 = 46340\<^sup>2\<close> on which the
  allocation succeeds, \<open>sieve_count_primes\<close> returns a count: no access to the flag array
  is out of bounds, no \<^verbatim>\<open>int\<close> computation overflows, and every loop ends.
\<close>

theorem sieve_accesses_in_bounds:
  assumes "1 \<le> limit" and "limit < 2147395600"
    and "heap w (mallocs w) (size_t_of_int (limit + 1))"
  shows "\<exists>cnt w'. sieve_count_primes limit w = Some (Inr (cnt, w'))"
  using sieve_count_primes_spec [OF assms] by blast

theorem sieve_accesses_in_bounds_witness:
  "(1::int) \<le> 100000 \<and> (100000::int) < 2147395600
   \<and> heap plain_world (mallocs plain_world) (size_t_of_int (100000 + 1))
   \<and> (\<exists>cnt w'. sieve_count_primes 100000 plain_world = Some (Inr (cnt, w')))"
  using sieve_accesses_in_bounds [of 100000 plain_world] by (simp add: plain_world_def)

text \<open>
  The claim C9 as stated, for every \<open>limit \<ge> 1\<close>, fails at \<open>limit = 2147395600\<close>: the
  allocation succeeds in \<open>plain_world\<close>, the outer loop reaches \<open>p = 46341\<close>, and the test
  \<^verbatim>\<open>p*p <= limit\<close> overflows \<^verbatim>\<open>int\<close>.
\<close>

theorem sieve_large_limit_overflows:
  "(1::int) \<le> 2147395600 \<and> (2147395600::int) \<le> INT_MAX
   \<and> heap plain_world (mallocs plain_world) (size_t_of_int (2147395600 + 1))
   \<and> sieve_count_primes 2147395600 plain_world = Some (Inl Signed_Overflow)"
proof -
  have "sieve_count_primes 2147395600 plain_world = Some (Inl Signed_Overflow)"
    by (rule sieve_count_primes_overflow) (simp_all add: INT_MAX_def plain_world_def)
  then show ?thesis by (simp add: INT_MAX_def plain_world_def)
qed

text \<open>
  C1, amended. For every \<open>limit\<close> with \<open>1 \<le> limit < 2147395600\<close> on which the allocation
  succeeds, \<open>sieve_count_primes\<close> returns the number of primes in \<open>[2, limit]\<close>; in particular
  it returns 0 for \<open>limit = 1\<close>, 4 for \<open>limit = 10\<close> and 25 for \<open>limit = 100\<close>.
\<close>

theorem sieve_counts_primes:
  assumes "1 \<le> limit" and "limit < 2147395600"
    and "heap w (mallocs w) (size_t_of_int (limit + 1))"
  shows "sieve_count_primes limit w =
           Some (Inr (int (card {k. 2 \<le> k \<and> int k \<le> limit \<and> is_prime k}),
                      w\<lparr>mallocs := Suc (mallocs w)\<rparr>))
         \<and> (limit = 1 \<longrightarrow>
              sieve_count_primes limit w = Some (Inr (0, w\<lparr>mallocs := Suc (mallocs w)\<rparr>)))
         \<and> (limit = 10 \<longrightarrow>
              sieve_count_primes limit w = Some (Inr (4, w\<lparr>mallocs := Suc (mallocs w)\<rparr>)))
         \<and> (limit = 100 \<longrightarrow>
              sieve_count_primes limit w = Some (Inr (25, w\<lparr>mallocs := Suc (mallocs w)\<rparr>)))"
proof -
  have u: "sieve_count_primes limit w =
           map_option (map_sum id (\<lambda>cnt. (cnt, w\<lparr>mallocs := Suc (mallocs w)\<rparr>)))
             (sieve_run limit (replicate (nat (limit + 1)) 1))"
    using assms by (intro sieve_count_primes_unfold) (auto simp: INT_MAX_def)
  have "limit = 1 \<longrightarrow> sieve_count_primes limit w = Some (Inr (0, w\<lparr>mallocs := Suc (mallocs w)\<rparr>))"
    unfolding u using sieve_run_1 by auto
  moreover
  have "limit = 10 \<longrightarrow> sieve_count_primes limit w = Some (Inr (4, w\<lparr>mallocs := Suc (mallocs w)\<rparr>))"
    unfolding u using sieve_run_10 by auto
  moreover
  have "limit = 100 \<longrightarrow> sieve_count_primes limit w = Some (Inr (25, w\<lparr>mallocs := Suc (mallocs w)\<rparr>))"
    unfolding u using sieve_run_100 by auto
  ultimately show ?thesis using sieve_count_primes_spec [OF assms] by blast
qed

theorem sieve_counts_primes_witness:
  "(1::int) \<le> 100 \<and> (100::int) < 2147395600
   \<and> heap plain_world (mallocs plain_world) (size_t_of_int (100 + 1))
   \<and> sieve_count_primes 100 plain_world = Some (Inr (25, plain_world\<lparr>mallocs := Suc 0\<rparr>))"
proof -
  have h: "heap plain_world (mallocs plain_world) (size_t_of_int (100 + 1))"
    by (simp add: plain_world_def)
  have a: "(1::int) \<le> 100" "(100::int) < 2147395600" by simp_all
  have "(100::int) = 100 \<longrightarrow> sieve_count_primes 100 plain_world =
          Some (Inr (25, plain_world\<lparr>mallocs := Suc (mallocs plain_world)\<rparr>))"
    using sieve_counts_primes [OF a h] by blast
  moreover have "mallocs plain_world = 0" by (simp add: plain_world_def)
  ultimately show ?thesis using h by simp
qed

text \<open>
  The claim C1 as stated, for every \<open>limit\<close> and with its "0 for every \<open>limit < 2\<close>", fails
  in three ways. At \<open>limit = 0\<close> the buffer has one byte and \<^verbatim>\<open>isprime[1] = 0\<close> writes past
  its end. At \<open>limit = 2147400000\<close> the test \<^verbatim>\<open>p*p <= limit\<close> overflows \<^verbatim>\<open>int\<close>. And where
  the allocation fails, at \<open>limit = 10\<close> in \<open>starved_world\<close>, the value returned is the
  sentinel \<open>-1\<close>, not the count 4.
\<close>

theorem sieve_contract_fails:
  "sieve_count_primes 0 plain_world = Some (Inl Out_Of_Bounds)
   \<and> sieve_count_primes 2147400000 plain_world = Some (Inl Signed_Overflow)
   \<and> sieve_count_primes 10 starved_world =
       Some (Inr (- 1, eprintf (''malloc failed sieve'' @ [nl]) []
                         (starved_world\<lparr>mallocs := Suc 0\<rparr>)))"
proof -
  have "sieve_count_primes 0 plain_world = Some (Inl Out_Of_Bounds)"
    by (simp add: sieve_count_primes_def malloc_def plain_world_def INT_MAX_def
        size_t_of_int_def sieve_run_def)
  moreover have "sieve_count_primes 2147400000 plain_world = Some (Inl Signed_Overflow)"
    by (rule sieve_count_primes_overflow) (simp_all add: INT_MAX_def plain_world_def)
  moreover have "sieve_count_primes 10 starved_world =
       Some (Inr (- 1, eprintf (''malloc failed sieve'' @ [nl]) []
                         (starved_world\<lparr>mallocs := Suc 0\<rparr>)))"
    by (simp add: sieve_count_primes_def malloc_def starved_world_def plain_world_def INT_MAX_def)
  ultimately show ?thesis by blast
qed

section \<open>The matrix kernel: initialisation, product and checksum\<close>

lemma idx_nat:
  assumes "0 \<le> i" "i < M" "0 \<le> k" "k < M" "M \<le> INT_MAX"
  shows "idx i M k = nat i * nat M + nat k"
proof -
  have b: "(x::int) < 2 ^ 64" if "x \<le> INT_MAX" for x using that by (simp add: INT_MAX_def)
  have s: "size_t_of_int i = nat i" "size_t_of_int M = nat M" "size_t_of_int k = nat k"
    using assms by (auto intro!: size_t_of_int_small b)
  have "nat i * nat M \<le> nat M * nat M" using assms by (intro mult_le_mono) auto
  also have "\<dots> \<le> 2147483647 * 2147483647"
    using assms by (intro mult_le_mono) (auto simp: INT_MAX_def)
  finally have "nat i * nat M \<le> 2147483647 * 2147483647" .
  moreover have "nat k \<le> 2147483647" using assms by (simp add: INT_MAX_def)
  ultimately have "nat i * nat M + nat k < 2 ^ 64" by simp
  then show ?thesis by (simp add: idx_def s)
qed

lemma init_loop_closed:
  assumes "n \<le> length A" "n \<le> length B" "n \<le> length C"
  shows "\<exists>A' B' C'. init_loop rnd n i seed A B C = Inr (A', B', C') \<and>
           length A' = length A \<and> length B' = length B \<and> length C' = length C \<and>
           (\<forall>x < length A. A' ! x = (if i \<le> x \<and> x < n then sample rnd ((lcg ^^ (2 * (x - i) + 1)) seed) else A ! x)) \<and>
           (\<forall>x < length B. B' ! x = (if i \<le> x \<and> x < n then sample rnd ((lcg ^^ (2 * (x - i) + 2)) seed) else B ! x)) \<and>
           (\<forall>x < length C. C' ! x = (if i \<le> x \<and> x < n then 0 else C ! x))"
  using assms
proof (induction "n - i" arbitrary: i seed A B C rule: less_induct)
  case less
  show ?case
  proof (cases "i < n")
    case False
    then have "init_loop rnd n i seed A B C = Inr (A, B, C)"
      by (subst init_loop.simps) simp
    with False show ?thesis by auto
  next
    case True
    let ?s1 = "lcg seed" let ?s2 = "lcg (lcg seed)"
    let ?A = "A[i := sample rnd ?s1]" let ?B = "B[i := sample rnd ?s2]" let ?C = "C[i := 0]"
    have step: "init_loop rnd n i seed A B C = init_loop rnd n (Suc i) ?s2 ?A ?B ?C"
      by (subst init_loop.simps) (use True less.prems in \<open>simp add: Let_def\<close>)
    have "n - Suc i < n - i" using True by simp
    moreover have "n \<le> length ?A" "n \<le> length ?B" "n \<le> length ?C" using less.prems by simp_all
    ultimately obtain A' B' C' where r: "init_loop rnd n (Suc i) ?s2 ?A ?B ?C = Inr (A', B', C')"
      "length A' = length ?A" "length B' = length ?B" "length C' = length ?C"
      "\<forall>x < length ?A. A' ! x = (if Suc i \<le> x \<and> x < n then sample rnd ((lcg ^^ (2 * (x - Suc i) + 1)) ?s2) else ?A ! x)"
      "\<forall>x < length ?B. B' ! x = (if Suc i \<le> x \<and> x < n then sample rnd ((lcg ^^ (2 * (x - Suc i) + 2)) ?s2) else ?B ! x)"
      "\<forall>x < length ?C. C' ! x = (if Suc i \<le> x \<and> x < n then 0 else ?C ! x)"
      using less.hyps [of "Suc i" ?A ?B ?C ?s2] by blast
    have shift: "(lcg ^^ (2 * (x - Suc i) + m)) ?s2 = (lcg ^^ (2 * (x - i) + m)) seed" if "Suc i \<le> x" for x m
    proof -
      have "2 * (x - i) + m = (2 * (x - Suc i) + m) + 2" using that by simp
      then show ?thesis by (simp only: funpow_add o_apply) (simp add: numeral_2_eq_2)
    qed
    have a: "A' ! x = (if i \<le> x \<and> x < n then sample rnd ((lcg ^^ (2 * (x - i) + 1)) seed) else A ! x)"
      if "x < length A" for x
      using r(5) that True less.prems(1) shift [of x 1]
      by (cases "x = i") (auto simp: nth_list_update)
    have b: "B' ! x = (if i \<le> x \<and> x < n then sample rnd ((lcg ^^ (2 * (x - i) + 2)) seed) else B ! x)"
      if "x < length B" for x
      using r(6) that True less.prems(2) shift [of x 2]
      by (cases "x = i") (auto simp: nth_list_update numeral_2_eq_2)
    have c: "C' ! x = (if i \<le> x \<and> x < n then 0 else C ! x)" if "x < length C" for x
      using r(7) that True less.prems(3)
      by (cases "x = i") (auto simp: nth_list_update)
    show ?thesis using step r(1-4) a b c by simp
  qed
qed

lemma init_loop_gen:
  assumes "length A = n" "length B = n" "length C = n"
  shows "init_loop rnd n 0 123456789 A B C = Inr (gen_A rnd n, gen_B rnd n, replicate n 0)"
proof -
  from init_loop_closed [of n A B C rnd 0 123456789] assms
  obtain A' B' C' where r: "init_loop rnd n 0 123456789 A B C = Inr (A', B', C')"
    "length A' = n" "length B' = n" "length C' = n"
    "\<forall>x < n. A' ! x = sample rnd ((lcg ^^ (2 * x + 1)) 123456789)"
    "\<forall>x < n. B' ! x = sample rnd ((lcg ^^ (2 * x + 2)) 123456789)"
    "\<forall>x < n. C' ! x = 0"
    by auto
  have "A' = gen_A rnd n" using r(2,5) by (auto simp: gen_A_def intro: nth_equalityI)
  moreover have "B' = gen_B rnd n" using r(3,6) by (auto simp: gen_B_def intro: nth_equalityI)
  moreover have "C' = replicate n 0" using r(4,7) by (auto intro: nth_equalityI)
  ultimately show ?thesis using r(1) by simp
qed

lemma init_loop_short:
  assumes "length A < n" "length A = length B" "length A = length C" "i \<le> length A"
  shows "init_loop rnd n i seed A B C = Inl Out_Of_Bounds"
  using assms
proof (induction "length A - i" arbitrary: i seed A B C rule: less_induct)
  case less
  show ?case
  proof (cases "i = length A")
    case True
    then show ?thesis by (subst init_loop.simps) (use less.prems in simp)
  next
    case False
    then have lt: "i < length A" using less.prems(4) by simp
    let ?s2 = "lcg (lcg seed)"
    let ?A = "A[i := sample rnd (lcg seed)]" let ?B = "B[i := sample rnd ?s2]" let ?C = "C[i := 0]"
    have step: "init_loop rnd n i seed A B C = init_loop rnd n (Suc i) ?s2 ?A ?B ?C"
      by (subst init_loop.simps) (use lt less.prems in \<open>simp add: Let_def\<close>)
    have "init_loop rnd n (Suc i) ?s2 ?A ?B ?C = Inl Out_Of_Bounds"
      using lt less.prems by (intro less.hyps) auto
    with step show ?thesis by simp
  qed
qed


lemma cell_index:
  assumes "j < (n::nat)"
  shows "(i * n + j) div n = i" and "(i * n + j) mod n = j"
  using assms by simp_all

lemma cell_bound:
  assumes "i < (n::nat)" and "j < n"
  shows "i * n + j < n * n"
proof -
  have "i * n + j < i * n + n" using assms(2) by simp
  also have "\<dots> = Suc i * n" by simp
  also have "\<dots> \<le> n * n" using assms(1) by (intro mult_le_mono) auto
  finally show ?thesis .
qed

lemma mm_j_closed:
  assumes "0 \<le> i" "i < M" "0 \<le> k" "k < M" "0 \<le> j" "M \<le> INT_MAX"
    and "length B = nat M * nat M" "length C = nat M * nat M"
  shows "\<exists>C'. mm_j rnd M i k aik j B C = Inr C' \<and> length C' = length C \<and>
           (\<forall>x < length C. C' ! x =
              (if x div nat M = nat i \<and> nat j \<le> x mod nat M
               then rnd (C ! x + rnd (aik * B ! (nat k * nat M + x mod nat M))) else C ! x))"
  using assms(5,8)
proof (induction "nat (M - j)" arbitrary: j C rule: less_induct)
  case less
  have Npos: "0 < nat M" using assms(1,2) by simp
  show ?case
  proof (cases "j < M")
    case False
    have "mm_j rnd M i k aik j B C = Inr C"
      by (subst mm_j.simps) (use False in simp)
    moreover have "\<not> nat j \<le> x mod nat M" for x
    proof -
      have "x mod nat M < nat M" using Npos by simp
      then show ?thesis using False by linarith
    qed
    ultimately show ?thesis by simp
  next
    case True
    let ?N = "nat M" let ?I = "nat i" let ?J = "nat j" let ?K = "nat k"
    have J: "?J < ?N" and I: "?I < ?N" and K: "?K < ?N"
      using True less.prems(1) assms by auto
    have ic: "idx i M j = ?I * ?N + ?J" using assms(1,2,6) less.prems(1) True by (intro idx_nat)
    have ib: "idx k M j = ?K * ?N + ?J" using assms(3,4,6) less.prems(1) True by (intro idx_nat)
    have icb: "?I * ?N + ?J < length C" using cell_bound [OF I J] less.prems(2) by simp
    have ibb: "?K * ?N + ?J < length B" using cell_bound [OF K J] assms(7) by simp
    let ?v = "rnd (C ! (?I * ?N + ?J) + rnd (aik * B ! (?K * ?N + ?J)))"
    let ?C1 = "C[?I * ?N + ?J := ?v]"
    have step: "mm_j rnd M i k aik j B C = mm_j rnd M i k aik (j + 1) B ?C1"
      by (subst mm_j.simps) (use True icb ibb in \<open>simp add: ic ib\<close>)
    have "nat (M - (j + 1)) < nat (M - j)" using True by linarith
    moreover have "0 \<le> j + 1" using less.prems(1) by simp
    moreover have "length ?C1 = ?N * ?N" using less.prems(2) by simp
    ultimately obtain C' where r: "mm_j rnd M i k aik (j + 1) B ?C1 = Inr C'"
      "length C' = length ?C1"
      "\<forall>x < length ?C1. C' ! x =
              (if x div ?N = ?I \<and> nat (j + 1) \<le> x mod ?N
               then rnd (?C1 ! x + rnd (aik * B ! (?K * ?N + x mod ?N))) else ?C1 ! x)"
      using less.hyps [of "j + 1" ?C1] by blast
    have nj: "nat (j + 1) = Suc ?J" using less.prems(1) by simp
    have "C' ! x = (if x div ?N = ?I \<and> ?J \<le> x mod ?N
               then rnd (C ! x + rnd (aik * B ! (?K * ?N + x mod ?N))) else C ! x)"
      if x: "x < length C" for x
    proof (cases "x = ?I * ?N + ?J")
      case True
      then show ?thesis using r(3) x J by (simp add: nj)
    next
      case False
      have "x mod ?N \<noteq> ?J" if "x div ?N = ?I"
      proof
        assume "x mod ?N = ?J"
        then have "x = ?I * ?N + ?J" using that div_mult_mod_eq [of x ?N] by simp
        with False show False by simp
      qed
      then have "(x div ?N = ?I \<and> Suc ?J \<le> x mod ?N) \<longleftrightarrow> (x div ?N = ?I \<and> ?J \<le> x mod ?N)"
        by (auto simp: Suc_le_eq order_less_le)
      with r(3) x False show ?thesis by (simp add: nj)
    qed
    with step r(1,2) show ?thesis by simp
  qed
qed

lemma mm_k_closed:
  assumes "0 \<le> i" "i < M" "0 \<le> k" "M \<le> INT_MAX"
    and "length A = nat M * nat M" "length B = nat M * nat M" "length C = nat M * nat M"
  shows "\<exists>C'. mm_k rnd M i k A B C = Inr C' \<and> length C' = length C \<and>
           (\<forall>x < length C. C' ! x =
              (if x div nat M = nat i
               then foldl (\<lambda>s k'. rnd (s + rnd (A ! (nat i * nat M + k') * B ! (k' * nat M + x mod nat M))))
                      (C ! x) [nat k..<nat M]
               else C ! x))"
  using assms(3,7)
proof (induction "nat (M - k)" arbitrary: k C rule: less_induct)
  case less
  let ?N = "nat M" let ?I = "nat i" let ?K = "nat k"
  let ?f = "\<lambda>x s k'. rnd (s + rnd (A ! (?I * ?N + k') * B ! (k' * ?N + x mod ?N)))"
  show ?case
  proof (cases "k < M")
    case False
    have r: "mm_k rnd M i k A B C = Inr C"
      by (subst mm_k.simps) (use False in simp)
    have "?N \<le> ?K" using False by simp
    then have e: "[?K..<?N] = []" by simp
    show ?thesis unfolding e r by simp
  next
    case True
    have I: "?I < ?N" and K: "?K < ?N" using True less.prems(1) assms by auto
    have ia: "idx i M k = ?I * ?N + ?K" using assms(1,2,4) less.prems(1) True by (intro idx_nat)
    have iab: "?I * ?N + ?K < length A" using cell_bound [OF I K] assms(5) by simp
    from mm_j_closed [OF assms(1,2) less.prems(1) True _ assms(4,6) less.prems(2), of 0 rnd "A ! (?I * ?N + ?K)"]
    obtain C1 where c1: "mm_j rnd M i k (A ! (?I * ?N + ?K)) 0 B C = Inr C1" "length C1 = length C"
      "\<forall>x < length C. C1 ! x = (if x div ?N = ?I then ?f x (C ! x) ?K else C ! x)"
      by auto
    have step: "mm_k rnd M i k A B C = mm_k rnd M i (k + 1) A B C1"
      by (subst mm_k.simps) (use True iab c1(1) in \<open>simp add: ia\<close>)
    have "nat (M - (k + 1)) < nat (M - k)" using True by linarith
    moreover have "0 \<le> k + 1" using less.prems(1) by simp
    moreover have "length C1 = ?N * ?N" using c1(2) less.prems(2) by simp
    ultimately obtain C' where r: "mm_k rnd M i (k + 1) A B C1 = Inr C'" "length C' = length C1"
      "\<forall>x < length C1. C' ! x =
         (if x div ?N = ?I then foldl (?f x) (C1 ! x) [nat (k + 1)..<?N] else C1 ! x)"
      using less.hyps [of "k + 1" C1] by blast
    have nk: "nat (k + 1) = Suc ?K" using less.prems(1) by simp
    have up: "[?K..<?N] = ?K # [Suc ?K..<?N]" using K by (rule upt_conv_Cons)
    have "C' ! x = (if x div ?N = ?I then foldl (?f x) (C ! x) [?K..<?N] else C ! x)"
      if x: "x < length C" for x
      using r(3) c1(2,3) x by (simp add: nk up)
    with step r(1,2) c1(2) show ?thesis by simp
  qed
qed

lemma mm_i_closed:
  assumes "0 \<le> i" "M \<le> INT_MAX"
    and "length A = nat M * nat M" "length B = nat M * nat M" "length C = nat M * nat M"
  shows "\<exists>C'. mm_i rnd M i A B C = Inr C' \<and> length C' = length C \<and>
           (\<forall>x < length C. C' ! x =
              (if nat i \<le> x div nat M
               then foldl (\<lambda>s k'. rnd (s + rnd (A ! (x div nat M * nat M + k') * B ! (k' * nat M + x mod nat M))))
                      (C ! x) [0..<nat M]
               else C ! x))"
  using assms(1,5)
proof (induction "nat (M - i)" arbitrary: i C rule: less_induct)
  case less
  let ?N = "nat M" let ?I = "nat i"
  let ?f = "\<lambda>x s k'. rnd (s + rnd (A ! (x div ?N * ?N + k') * B ! (k' * ?N + x mod ?N)))"
  show ?case
  proof (cases "i < M")
    case False
    have "mm_i rnd M i A B C = Inr C"
      by (subst mm_i.simps) (use False in simp)
    moreover have "\<not> ?I \<le> x div ?N" if "x < length C" for x
    proof (cases "?N = 0")
      case True
      with that less.prems(2) show ?thesis by simp
    next
      case N: False
      have "x div ?N < ?N" using that less.prems(2) N by (simp add: less_mult_imp_div_less)
      then show ?thesis using False by linarith
    qed
    ultimately show ?thesis by simp
  next
    case True
    from mm_k_closed [OF less.prems(1) True _ assms(2,3,4) less.prems(2), of 0 rnd]
    obtain C1 where c1: "mm_k rnd M i 0 A B C = Inr C1" "length C1 = length C"
      "\<forall>x < length C. C1 ! x = (if x div ?N = ?I then foldl (?f x) (C ! x) [0..<?N] else C ! x)"
      by auto
    have step: "mm_i rnd M i A B C = mm_i rnd M (i + 1) A B C1"
      by (subst mm_i.simps) (use True c1(1) in simp)
    have "nat (M - (i + 1)) < nat (M - i)" using True by linarith
    moreover have "0 \<le> i + 1" using less.prems(1) by simp
    moreover have "length C1 = ?N * ?N" using c1(2) less.prems(2) by simp
    ultimately obtain C' where r: "mm_i rnd M (i + 1) A B C1 = Inr C'" "length C' = length C1"
      "\<forall>x < length C1. C' ! x =
         (if nat (i + 1) \<le> x div ?N then foldl (?f x) (C1 ! x) [0..<?N] else C1 ! x)"
      using less.hyps [of "i + 1" C1] by blast
    have ni: "nat (i + 1) = Suc ?I" using less.prems(1) by simp
    have "C' ! x = (if ?I \<le> x div ?N then foldl (?f x) (C ! x) [0..<?N] else C ! x)"
      if x: "x < length C" for x
    proof (cases "x div ?N = ?I")
      case True
      then show ?thesis using r(3) c1(2,3) x by (simp add: ni)
    next
      case False
      then have "Suc ?I \<le> x div ?N \<longleftrightarrow> ?I \<le> x div ?N" by auto
      then show ?thesis using r(3) c1(2,3) x False by (simp add: ni)
    qed
    with step r(1,2) c1(2) show ?thesis by simp
  qed
qed

lemma mm_i_product:
  assumes "0 \<le> M" "M \<le> INT_MAX" "length A = nat M * nat M" "length B = nat M * nat M"
  shows "\<exists>C'. mm_i rnd M 0 A B (replicate (nat M * nat M) 0) = Inr C' \<and>
           length C' = nat M * nat M \<and>
           (\<forall>x < nat M * nat M. C' ! x = dot rnd (nat M) A B (x div nat M) (x mod nat M))"
proof -
  from mm_i_closed [OF _ assms(2,3,4), of 0 "replicate (nat M * nat M) 0" rnd]
  obtain C' where "mm_i rnd M 0 A B (replicate (nat M * nat M) 0) = Inr C'"
    "length C' = nat M * nat M"
    "\<forall>x < nat M * nat M. C' ! x =
        foldl (\<lambda>s k'. rnd (s + rnd (A ! (x div nat M * nat M + k') * B ! (k' * nat M + x mod nat M))))
          (replicate (nat M * nat M) 0 ! x) [0..<nat M]"
    by auto
  then show ?thesis by (auto simp: dot_def)
qed


lemma concat_rows_length:
  "length (concat (map (\<lambda>i. map (g i) [0..<n]) [0..<m])) = m * n"
  by (induction m) simp_all

lemma concat_rows_nth:
  assumes "i < m" and "j < n"
  shows "concat (map (\<lambda>i. map (g i) [0..<n]) [0..<m]) ! (i * n + j) = g i j"
  using assms(1)
proof (induction m)
  case 0
  then show ?case by simp
next
  case (Suc m)
  show ?case
  proof (cases "i = m")
    case True
    then show ?thesis using assms(2) by (simp add: nth_append concat_rows_length)
  next
    case False
    then have im: "i < m" using Suc.prems by simp
    then have "i * n + j < m * n" using assms(2)
      by (metis add_less_cancel_left mult_Suc mult_le_mono1 Suc_leI add.commute less_le_trans)
    with Suc.IH [OF im] show ?thesis by (simp add: nth_append concat_rows_length)
  qed
qed

lemma reference_mul_length: "length (reference_mul rnd n A B) = n * n"
  by (simp add: reference_mul_def concat_rows_length)

lemma reference_mul_nth:
  assumes "x < n * n"
  shows "reference_mul rnd n A B ! x = dot rnd n A B (x div n) (x mod n)"
proof -
  have n: "0 < n" using assms by (cases n) auto
  have "x div n < n" using assms by (simp add: less_mult_imp_div_less)
  moreover have "x mod n < n" using n by simp
  ultimately have "reference_mul rnd n A B ! (x div n * n + x mod n) = dot rnd n A B (x div n) (x mod n)"
    unfolding reference_mul_def by (rule concat_rows_nth)
  then show ?thesis by simp
qed

lemma mm_i_reference:
  assumes "0 \<le> M" "M \<le> INT_MAX" "length A = nat M * nat M" "length B = nat M * nat M"
  shows "mm_i rnd M 0 A B (replicate (nat M * nat M) 0) = Inr (reference_mul rnd (nat M) A B)"
proof -
  from mm_i_product [OF assms, of rnd]
  obtain C' where c: "mm_i rnd M 0 A B (replicate (nat M * nat M) 0) = Inr C'"
    "length C' = nat M * nat M"
    "\<forall>x < nat M * nat M. C' ! x = dot rnd (nat M) A B (x div nat M) (x mod nat M)"
    by blast
  have "C' = reference_mul rnd (nat M) A B"
    using c(2,3) by (intro nth_equalityI) (simp_all add: reference_mul_length reference_mul_nth)
  with c(1) show ?thesis by simp
qed

lemma stride_eq:
  assumes "1 \<le> M"
  shows "stride M = max 1 (M div 8)"
proof (cases "M > 8")
  case True
  then have "1 \<le> M div 8" by presburger
  with True show ?thesis by (simp add: stride_def c_div_def)
next
  case False
  then have "M div 8 \<le> 1" using assms by presburger
  with False show ?thesis by (simp add: stride_def)
qed

lemma nat_stride:
  assumes "1 \<le> M"
  shows "nat (stride M) = max 1 (nat M div 8)" and "0 < stride M"
proof -
  have d: "nat (M div 8) = nat M div 8" using assms by (simp add: nat_div_distrib)
  show "nat (stride M) = max 1 (nat M div 8)"
  proof (cases "1 \<le> M div 8")
    case True
    then have "1 \<le> nat (M div 8)" by simp
    with True d show ?thesis unfolding stride_eq [OF assms] by (simp add: max_def)
  next
    case False
    then have "nat (M div 8) = 0" by simp
    with False d show ?thesis unfolding stride_eq [OF assms] by (simp add: max_def)
  qed
  show "0 < stride M" unfolding stride_eq [OF assms] by simp
qed

lemma ceil_count:
  assumes "0 < (S::nat)" and "0 < d"
  shows "(d + S - 1) div S = Suc ((d - S + S - 1) div S)"
proof (cases "S \<le> d")
  case True
  have e1: "d + S - 1 = (d - 1) + S" using assms by simp
  have e2: "d - S + S - 1 = d - 1" using True by simp
  show ?thesis unfolding e1 e2 using assms(1) by simp
next
  case False
  have e1: "d + S - 1 = (d - 1) + S" using assms by simp
  have e2: "d - S + S - 1 = S - 1" using False by simp
  have "(S - 1) div S = 0" using assms(1) by simp
  moreover have "(d - 1) div S = 0" using False assms by simp
  ultimately show ?thesis unfolding e1 e2 using assms(1) by simp
qed

lemma c_mod_small:
  assumes "0 \<le> i" and "i < M"
  shows "c_mod i M = i"
  using assms by (simp add: c_mod_def c_div_def)

lemma checksum_loop_closed:
  assumes "1 \<le> M" "M < 1518500250" "0 \<le> i" "length C = nat M * nat M"
  shows "checksum_loop rnd M i acc C =
           Inr (foldl (\<lambda>t r. rnd (t + C ! (r * nat M + r mod nat M))) acc
                  (map (\<lambda>k. nat i + k * nat (stride M))
                     [0..<(nat M - nat i + nat (stride M) - 1) div nat (stride M)]))"
  using assms(3)
proof (induction "nat (M - i)" arbitrary: i acc rule: less_induct)
  case less
  let ?N = "nat M" let ?I = "nat i" let ?S = "nat (stride M)"
  let ?f = "\<lambda>t r. rnd (t + C ! (r * ?N + r mod ?N))"
  have S: "0 < ?S" using nat_stride(2) [OF assms(1)] by simp
  show ?case
  proof (cases "i < M")
    case False
    then have "?N - ?I = 0" by simp
    then have "(?N - ?I + ?S - 1) div ?S = 0" using S by simp
    moreover have "checksum_loop rnd M i acc C = Inr acc"
      by (subst checksum_loop.simps) (use False in simp)
    ultimately show ?thesis by simp
  next
    case True
    have I: "?I < ?N" using True less.prems by simp
    have M_le: "M \<le> INT_MAX" using assms(2) by (simp add: INT_MAX_def)
    have cm: "c_mod i M = i" using less.prems True by (rule c_mod_small)
    have ix: "idx i M i = ?I * ?N + ?I" using less.prems True M_le by (intro idx_nat)
    have inb: "?I * ?N + ?I < length C" using cell_bound [OF I I] assms(4) by simp
    have "0 \<le> M div 8" using assms(1) by (simp add: pos_imp_zdiv_nonneg_iff)
    then have "stride M \<le> M div 8 + 1" unfolding stride_eq [OF assms(1)] by simp
    moreover have "M div 8 \<le> 1518500249 div 8" using assms(2) by (intro zdiv_mono1) auto
    ultimately have noov: "\<not> INT_MAX < i + stride M"
      using True assms(2) by (simp add: INT_MAX_def)
    have "M \<noteq> 0" using assms(1) by simp
    then have step: "checksum_loop rnd M i acc C =
        checksum_loop rnd M (i + stride M) (rnd (acc + C ! (?I * ?N + ?I))) C"
      by (subst checksum_loop.simps) (use True inb noov in \<open>simp add: cm ix\<close>)
    have spos: "0 < stride M" by (rule nat_stride(2) [OF assms(1)])
    have "nat (M - (i + stride M)) < nat (M - i)" using True spos by linarith
    moreover have "0 \<le> i + stride M" using less.prems spos by simp
    ultimately have ih: "checksum_loop rnd M (i + stride M) (rnd (acc + C ! (?I * ?N + ?I))) C =
        Inr (foldl ?f (rnd (acc + C ! (?I * ?N + ?I)))
              (map (\<lambda>k. nat (i + stride M) + k * ?S)
                 [0..<(?N - nat (i + stride M) + ?S - 1) div ?S]))"
      by (rule less.hyps)
    have ns: "nat (i + stride M) = ?I + ?S" using less.prems spos by (simp add: nat_add_distrib)
    have "0 < ?N - ?I" using I by simp
    from ceil_count [OF S this]
    have cnt: "(?N - ?I + ?S - 1) div ?S = Suc ((?N - (?I + ?S) + ?S - 1) div ?S)" by simp
    have "map (\<lambda>k. ?I + k * ?S) [0..<Suc c] = ?I # map (\<lambda>k. ?I + ?S + k * ?S) [0..<c]" for c
    proof -
      have "[0..<Suc c] = 0 # map Suc [0..<c]" by (simp add: upt_conv_Cons map_Suc_upt)
      then show ?thesis by (simp add: comp_def add.assoc)
    qed
    then have "foldl ?f acc (map (\<lambda>k. ?I + k * ?S) [0..<(?N - ?I + ?S - 1) div ?S]) =
        foldl ?f (rnd (acc + C ! (?I * ?N + ?I)))
          (map (\<lambda>k. ?I + ?S + k * ?S) [0..<(?N - (?I + ?S) + ?S - 1) div ?S])"
      unfolding cnt using I by simp
    with step ih show ?thesis by (simp add: ns)
  qed
qed

lemma checksum_loop_spec:
  assumes "1 \<le> M" "M < 1518500250" "length C = nat M * nat M"
  shows "checksum_loop rnd M 0 0 C = Inr (spec_checksum rnd (nat M) C)"
proof -
  have "nat (stride M) = max 1 (nat M div 8)" by (rule nat_stride(1) [OF assms(1)])
  then show ?thesis
    using checksum_loop_closed [OF assms(1,2) _ assms(3), of 0 rnd 0]
    by (simp add: spec_checksum_def sampled_rows_def Let_def)
qed

lemma sampled_rows_set:
  "set (sampled_rows n) = {r. r < n \<and> max 1 (n div 8) dvd r}"
proof -
  define s where "s = max 1 (n div 8)"
  have s: "0 < s" by (simp add: s_def)
  have iff: "k < (n + s - 1) div s \<longleftrightarrow> k * s < n" for k
  proof -
    have "k < (n + s - 1) div s \<longleftrightarrow> Suc k \<le> (n + s - 1) div s" by auto
    also have "\<dots> \<longleftrightarrow> Suc k * s \<le> n + s - 1" using s by (simp only: less_eq_div_iff_mult_less_eq)
    also have "\<dots> \<longleftrightarrow> s + k * s \<le> n + s - 1" by simp
    also have "\<dots> \<longleftrightarrow> k * s < n" using s by linarith
    finally show ?thesis .
  qed
  have "set (sampled_rows n) = {k * s | k. k < (n + s - 1) div s}"
    by (auto simp: sampled_rows_def Let_def s_def)
  also have "\<dots> = {r. r < n \<and> s dvd r}"
    using iff by (auto simp: dvd_def mult.commute)
  finally show ?thesis by (simp add: s_def)
qed

lemma init_loop_any:
  assumes "length A = cap" "length B = cap" "length C = cap" "cap \<le> n"
  shows "init_loop rnd n 0 123456789 A B C =
           (if cap < n then Inl Out_Of_Bounds else Inr (gen_A rnd n, gen_B rnd n, replicate n 0))"
proof (cases "cap < n")
  case True
  then show ?thesis using assms by (simp add: init_loop_short)
next
  case False
  then have "cap = n" using assms(4) by simp
  then show ?thesis using assms by (simp add: init_loop_gen)
qed

lemma matrix_mul_test_failed:
  assumes "\<not> matrix_allocated M w"
  shows "matrix_mul_test rnd M w =
           Inr (- 1, eprintf (''malloc failed matrix'' @ [nl]) [] (w\<lparr>mallocs := Suc (Suc (Suc (mallocs w)))\<rparr>))"
  using assms
  by (auto simp: matrix_mul_test_def matrix_allocated_def Let_def malloc_def)

lemma matrix_mul_test_allocated:
  assumes "matrix_allocated M w"
  shows "matrix_mul_test rnd M w =
           (case matrix_checksum rnd M of
              Inl e \<Rightarrow> Inl e
            | Inr c \<Rightarrow>
                Inr (rnd (clock w (Suc (ticks w)) - clock w (ticks w)),
                     printf checksum_fmt [Dbl_arg c]
                       (w\<lparr>mallocs := Suc (Suc (Suc (mallocs w))), ticks := Suc (Suc (ticks w))\<rparr>)))"
proof -
  define n where "n = (size_t_of_int M * size_t_of_int M) mod 2 ^ 64"
  define cap where "cap = ((8 * n) mod 2 ^ 64) div 8"
  have "(8 * n) mod 2 ^ 64 \<le> 8 * n" by (rule mod_less_eq_dividend)
  then have capn: "cap \<le> n" unfolding cap_def by simp
  have h: "heap w (mallocs w) ((8 * n) mod 2 ^ 64)" "heap w (Suc (mallocs w)) ((8 * n) mod 2 ^ 64)"
    "heap w (Suc (Suc (mallocs w))) ((8 * n) mod 2 ^ 64)"
    using assms by (simp_all add: matrix_allocated_def Let_def n_def)
  have init: "init_loop rnd n 0 123456789 (map f [0..<cap]) (map g [0..<cap]) (map h [0..<cap]) =
      (if cap < n then Inl Out_Of_Bounds else Inr (gen_A rnd n, gen_B rnd n, replicate n 0))"
    for f g h :: "nat \<Rightarrow> real"
    by (rule init_loop_any) (simp_all add: capn)
  show ?thesis
    unfolding matrix_mul_test_def matrix_checksum_def n_def [symmetric] Let_def
    unfolding cap_def [symmetric] malloc_def now_seconds_def
    using h
    by (simp add: init checksum_fmt_def split: sum.splits)
qed


lemma square_bound:
  assumes "0 \<le> M" "M < 1518500250"
  shows "nat M * nat M \<le> 2305843006213062001"
proof -
  have "nat M \<le> 1518500249" using assms by simp
  then have "nat M * nat M \<le> 1518500249 * 1518500249" by (intro mult_le_mono)
  then show ?thesis by simp
qed

lemma matrix_sizes:
  assumes "0 \<le> M" "M < 1518500250"
  shows "(size_t_of_int M * size_t_of_int M) mod 2 ^ 64 = nat M * nat M"
    and "((8 * (nat M * nat M)) mod 2 ^ 64) div 8 = nat M * nat M"
proof -
  have s: "size_t_of_int M = nat M" using assms by (intro size_t_of_int_small) auto
  have b: "nat M * nat M \<le> 2305843006213062001" by (rule square_bound [OF assms])
  then show "(size_t_of_int M * size_t_of_int M) mod 2 ^ 64 = nat M * nat M"
    unfolding s by simp
  from b have "8 * (nat M * nat M) < 2 ^ 64" by simp
  then show "((8 * (nat M * nat M)) mod 2 ^ 64) div 8 = nat M * nat M" by simp
qed

lemma matrix_sizes_large:
  assumes "1518500250 \<le> M" "M \<le> INT_MAX"
  shows "(size_t_of_int M * size_t_of_int M) mod 2 ^ 64 = nat M * nat M"
    and "((8 * (nat M * nat M)) mod 2 ^ 64) div 8 < nat M * nat M"
proof -
  have s: "size_t_of_int M = nat M"
    using assms by (intro size_t_of_int_small) (auto simp: INT_MAX_def)
  have "nat M \<le> 2147483647" using assms by (simp add: INT_MAX_def)
  then have "nat M * nat M \<le> 2147483647 * 2147483647" by (intro mult_le_mono)
  then show "(size_t_of_int M * size_t_of_int M) mod 2 ^ 64 = nat M * nat M"
    unfolding s by simp
  have "1518500250 \<le> nat M" using assms by simp
  then have "1518500250 * 1518500250 \<le> nat M * nat M" by (intro mult_le_mono)
  then have big: "2 ^ 61 \<le> nat M * nat M" by simp
  have "(8 * (nat M * nat M)) mod 2 ^ 64 < (2 ^ 64 :: nat)" by simp
  then have "((8 * (nat M * nat M)) mod 2 ^ 64) div 8 < (2 ^ 61 :: nat)" by simp
  with big show "((8 * (nat M * nat M)) mod 2 ^ 64) div 8 < nat M * nat M" by simp
qed

lemma matrix_checksum_value:
  assumes "1 \<le> M" "M < 1518500250"
  shows "matrix_checksum rnd M =
           Inr (spec_checksum rnd (nat M)
                  (reference_mul rnd (nat M) (gen_A rnd (nat M * nat M)) (gen_B rnd (nat M * nat M))))"
proof -
  have M0: "0 \<le> M" and Mle: "M \<le> INT_MAX" using assms by (auto simp: INT_MAX_def)
  let ?n = "nat M * nat M"
  have mm: "mm_i rnd M 0 (gen_A rnd ?n) (gen_B rnd ?n) (replicate ?n 0) =
      Inr (reference_mul rnd (nat M) (gen_A rnd ?n) (gen_B rnd ?n))"
    by (rule mm_i_reference [OF M0 Mle]) (simp_all add: gen_A_def gen_B_def)
  have ck: "checksum_loop rnd M 0 0 (reference_mul rnd (nat M) (gen_A rnd ?n) (gen_B rnd ?n)) =
      Inr (spec_checksum rnd (nat M) (reference_mul rnd (nat M) (gen_A rnd ?n) (gen_B rnd ?n)))"
    by (rule checksum_loop_spec [OF assms]) (simp add: reference_mul_length)
  show ?thesis
    unfolding matrix_checksum_def Let_def matrix_sizes [OF M0 assms(2)]
    by (simp add: mm ck)
qed

lemma matrix_checksum_large:
  assumes "1518500250 \<le> M" "M \<le> INT_MAX"
  shows "matrix_checksum rnd M = Inl Out_Of_Bounds"
  unfolding matrix_checksum_def Let_def matrix_sizes_large(1) [OF assms]
  using matrix_sizes_large(2) [OF assms] by simp

lemma spec_checksum_exact:
  "spec_checksum (\<lambda>x. x) n C = (\<Sum>i\<leftarrow>sampled_rows n. C ! (i * n + i mod n))"
proof -
  have "foldl (\<lambda>total i. total + f i) a xs = a + (\<Sum>i\<leftarrow>xs. f i)" for f :: "nat \<Rightarrow> real" and a xs
    by (induction xs arbitrary: a) (simp_all add: add.assoc)
  then show ?thesis by (simp add: spec_checksum_def)
qed

text \<open>
  C2. Two runs of the matrix kernel with the same \<open>M\<close> (and the same arithmetic) in any two
  worlds, whatever their clocks, the earlier contents of the allocated blocks and their
  output so far, print the same checksum, provided both obtain their three blocks and
  return: the checksum depends on \<open>M\<close> alone. (For \<open>1 \<le> M < 1518500250\<close> the kernel does
  return, by \<open>matrix_checksum_value\<close>.)
\<close>

theorem matrix_checksum_deterministic:
  assumes "matrix_allocated M w1" and "matrix_allocated M w2"
    and "matrix_mul_test rnd M w1 = Inr (t1, w1')"
    and "matrix_mul_test rnd M w2 = Inr (t2, w2')"
  shows "\<exists>c. stdout w1' = stdout w1 @ [(checksum_fmt, [Dbl_arg c])]
           \<and> stdout w2' = stdout w2 @ [(checksum_fmt, [Dbl_arg c])]"
proof (cases "matrix_checksum rnd M")
  case (Inl e)
  with assms(1,3) show ?thesis by (simp add: matrix_mul_test_allocated)
next
  case (Inr c)
  have "stdout w1' = stdout w1 @ [(checksum_fmt, [Dbl_arg c])]"
    using assms(1,3) Inr by (auto simp: matrix_mul_test_allocated printf_def)
  moreover have "stdout w2' = stdout w2 @ [(checksum_fmt, [Dbl_arg c])]"
    using assms(2,4) Inr by (auto simp: matrix_mul_test_allocated printf_def)
  ultimately show ?thesis by blast
qed

theorem matrix_checksum_deterministic_witness:
  "matrix_allocated 4 plain_world \<and> matrix_allocated 4 busy_world
   \<and> matrix_mul_test (\<lambda>x. x) 4 plain_world =
       Inr (1, printf checksum_fmt
                 [Dbl_arg (spec_checksum (\<lambda>x. x) 4
                    (reference_mul (\<lambda>x. x) 4 (gen_A (\<lambda>x. x) 16) (gen_B (\<lambda>x. x) 16)))]
                 (plain_world\<lparr>mallocs := Suc (Suc (Suc 0)), ticks := Suc (Suc 0)\<rparr>))
   \<and> matrix_mul_test (\<lambda>x. x) 4 busy_world =
       Inr (3, printf checksum_fmt
                 [Dbl_arg (spec_checksum (\<lambda>x. x) 4
                    (reference_mul (\<lambda>x. x) 4 (gen_A (\<lambda>x. x) 16) (gen_B (\<lambda>x. x) 16)))]
                 (busy_world\<lparr>mallocs := Suc (Suc (Suc 2)), ticks := Suc (Suc 5)\<rparr>))
   \<and> (\<exists>c. stdout (printf checksum_fmt
                 [Dbl_arg (spec_checksum (\<lambda>x. x) 4
                    (reference_mul (\<lambda>x. x) 4 (gen_A (\<lambda>x. x) 16) (gen_B (\<lambda>x. x) 16)))]
                 (plain_world\<lparr>mallocs := Suc (Suc (Suc 0)), ticks := Suc (Suc 0)\<rparr>))
            = stdout plain_world @ [(checksum_fmt, [Dbl_arg c])]
          \<and> stdout (printf checksum_fmt
                 [Dbl_arg (spec_checksum (\<lambda>x. x) 4
                    (reference_mul (\<lambda>x. x) 4 (gen_A (\<lambda>x. x) 16) (gen_B (\<lambda>x. x) 16)))]
                 (busy_world\<lparr>mallocs := Suc (Suc (Suc 2)), ticks := Suc (Suc 5)\<rparr>))
            = stdout busy_world @ [(checksum_fmt, [Dbl_arg c])])"
proof -
  have a1: "matrix_allocated 4 plain_world" and a2: "matrix_allocated 4 busy_world"
    by (simp_all add: matrix_allocated_def plain_world_def busy_world_def)
  have c: "matrix_checksum (\<lambda>x. x) 4 = Inr (spec_checksum (\<lambda>x. x) 4
             (reference_mul (\<lambda>x. x) 4 (gen_A (\<lambda>x. x) 16) (gen_B (\<lambda>x. x) 16)))"
    using matrix_checksum_value [of 4 "\<lambda>x. x"] by simp
  have r1: "matrix_mul_test (\<lambda>x. x) 4 plain_world =
       Inr (1, printf checksum_fmt
                 [Dbl_arg (spec_checksum (\<lambda>x. x) 4
                    (reference_mul (\<lambda>x. x) 4 (gen_A (\<lambda>x. x) 16) (gen_B (\<lambda>x. x) 16)))]
                 (plain_world\<lparr>mallocs := Suc (Suc (Suc 0)), ticks := Suc (Suc 0)\<rparr>))"
    unfolding matrix_mul_test_allocated [OF a1] c by (simp add: plain_world_def)
  have r2: "matrix_mul_test (\<lambda>x. x) 4 busy_world =
       Inr (3, printf checksum_fmt
                 [Dbl_arg (spec_checksum (\<lambda>x. x) 4
                    (reference_mul (\<lambda>x. x) 4 (gen_A (\<lambda>x. x) 16) (gen_B (\<lambda>x. x) 16)))]
                 (busy_world\<lparr>mallocs := Suc (Suc (Suc 2)), ticks := Suc (Suc 5)\<rparr>))"
    unfolding matrix_mul_test_allocated [OF a2] c by (simp add: plain_world_def busy_world_def)
  from matrix_checksum_deterministic [OF a1 a2 r1 r2] a1 a2 r1 r2 show ?thesis by blast
qed

text \<open>
  C4. For every size \<open>M \<ge> 1\<close> (an \<^verbatim>\<open>int\<close>) for which the kernel prints a checksum, the
  stride expression equals \<open>max 1 (M div 8)\<close>, the sampled rows are the multiples of the
  stride below \<open>M\<close>, and the checksum printed is the running total, over the sampled rows
  \<open>i\<close> in increasing order, of the entries \<open>C[i, i mod M]\<close> of the product \<open>C\<close> that the
  multiplication loops compute from the generated matrices.
\<close>

theorem checksum_samples_diagonal:
  assumes "1 \<le> M" and "M \<le> INT_MAX" and "matrix_allocated M w"
    and "matrix_mul_test rnd M w = Inr (t, w')"
  shows "stride M = max 1 (M div 8)
         \<and> set (sampled_rows (nat M)) = {r. r < nat M \<and> nat (stride M) dvd r}
         \<and> (\<exists>C. mm_i rnd M 0 (gen_A rnd (nat M * nat M)) (gen_B rnd (nat M * nat M))
                    (replicate (nat M * nat M) 0) = Inr C
                \<and> stdout w' = stdout w @ [(checksum_fmt, [Dbl_arg (spec_checksum rnd (nat M) C)])])"
proof -
  have small: "M < 1518500250"
  proof (rule ccontr)
    assume "\<not> M < 1518500250"
    then have "matrix_checksum rnd M = Inl Out_Of_Bounds"
      using assms(2) by (intro matrix_checksum_large) auto
    with assms(3,4) show False by (simp add: matrix_mul_test_allocated)
  qed
  let ?n = "nat M * nat M"
  let ?C = "reference_mul rnd (nat M) (gen_A rnd ?n) (gen_B rnd ?n)"
  have "0 \<le> M" using assms(1) by simp
  then have mm: "mm_i rnd M 0 (gen_A rnd ?n) (gen_B rnd ?n) (replicate ?n 0) = Inr ?C"
    using assms(2) by (rule mm_i_reference) (simp_all add: gen_A_def gen_B_def)
  have "stdout w' = stdout w @ [(checksum_fmt, [Dbl_arg (spec_checksum rnd (nat M) ?C)])]"
    using assms(3,4) matrix_checksum_value [OF assms(1) small, of rnd]
    by (auto simp: matrix_mul_test_allocated printf_def)
  with mm have "\<exists>C. mm_i rnd M 0 (gen_A rnd ?n) (gen_B rnd ?n) (replicate ?n 0) = Inr C
      \<and> stdout w' = stdout w @ [(checksum_fmt, [Dbl_arg (spec_checksum rnd (nat M) C)])]"
    by blast
  moreover have "set (sampled_rows (nat M)) = {r. r < nat M \<and> nat (stride M) dvd r}"
    unfolding nat_stride(1) [OF assms(1)] by (rule sampled_rows_set)
  ultimately show ?thesis using stride_eq [OF assms(1)] by blast
qed

theorem checksum_samples_diagonal_witness:
  "(1::int) \<le> 4 \<and> 4 \<le> INT_MAX \<and> matrix_allocated 4 busy_world
   \<and> matrix_mul_test (\<lambda>x. x) 4 busy_world =
       Inr (3, printf checksum_fmt
                 [Dbl_arg (spec_checksum (\<lambda>x. x) 4
                    (reference_mul (\<lambda>x. x) 4 (gen_A (\<lambda>x. x) 16) (gen_B (\<lambda>x. x) 16)))]
                 (busy_world\<lparr>mallocs := Suc (Suc (Suc 2)), ticks := Suc (Suc 5)\<rparr>))
   \<and> stride 4 = max 1 (4 div 8)
   \<and> set (sampled_rows (nat 4)) = {r. r < nat 4 \<and> nat (stride 4) dvd r}
   \<and> (\<exists>C. mm_i (\<lambda>x. x) 4 0 (gen_A (\<lambda>x. x) (nat 4 * nat 4)) (gen_B (\<lambda>x. x) (nat 4 * nat 4))
              (replicate (nat 4 * nat 4) 0) = Inr C
          \<and> stdout (printf checksum_fmt
                 [Dbl_arg (spec_checksum (\<lambda>x. x) 4
                    (reference_mul (\<lambda>x. x) 4 (gen_A (\<lambda>x. x) 16) (gen_B (\<lambda>x. x) 16)))]
                 (busy_world\<lparr>mallocs := Suc (Suc (Suc 2)), ticks := Suc (Suc 5)\<rparr>))
            = stdout busy_world @ [(checksum_fmt, [Dbl_arg (spec_checksum (\<lambda>x. x) (nat 4) C)])])"
proof -
  have a: "(1::int) \<le> 4" "4 \<le> INT_MAX" by (simp_all add: INT_MAX_def)
  have a2: "matrix_allocated 4 busy_world"
    by (simp add: matrix_allocated_def plain_world_def busy_world_def)
  have c: "matrix_checksum (\<lambda>x. x) 4 = Inr (spec_checksum (\<lambda>x. x) 4
             (reference_mul (\<lambda>x. x) 4 (gen_A (\<lambda>x. x) 16) (gen_B (\<lambda>x. x) 16)))"
    using matrix_checksum_value [of 4 "\<lambda>x. x"] by simp
  have r2: "matrix_mul_test (\<lambda>x. x) 4 busy_world =
       Inr (3, printf checksum_fmt
                 [Dbl_arg (spec_checksum (\<lambda>x. x) 4
                    (reference_mul (\<lambda>x. x) 4 (gen_A (\<lambda>x. x) 16) (gen_B (\<lambda>x. x) 16)))]
                 (busy_world\<lparr>mallocs := Suc (Suc (Suc 2)), ticks := Suc (Suc 5)\<rparr>))"
    unfolding matrix_mul_test_allocated [OF a2] c by (simp add: plain_world_def busy_world_def)
  from checksum_samples_diagonal [OF a a2 r2] a a2 r2 show ?thesis by blast
qed

text \<open>
  C3. For size 4, whatever the three blocks of 16 entries held: the initialisation
  produces the matrices generated from the seed 123456789 (one generator step for each of
  \<open>A[i]\<close> and \<open>B[i]\<close>, in this order, and \<open>C[i] = 0\<close>), and the product computed in the order
  \<open>i\<close>, \<open>k\<close>, \<open>j\<close> agrees entry by entry, within \<open>10\<^sup>-\<^sup>9\<close>, with the reference triple loop on
  the same \<open>A\<close> and \<open>B\<close>.
\<close>

theorem ikj_matches_reference:
  assumes "length A0 = 16" and "length B0 = 16" and "length C0 = 16"
  shows "\<exists>A B C C'. init_loop rnd 16 0 123456789 A0 B0 C0 = Inr (A, B, C)
           \<and> A = gen_A rnd 16 \<and> B = gen_B rnd 16 \<and> C = replicate 16 0
           \<and> mm_i rnd 4 0 A B C = Inr C' \<and> length C' = 16
           \<and> (\<forall>i<4. \<forall>j<4. \<bar>C' ! (i * 4 + j) - reference_mul rnd 4 A B ! (i * 4 + j)\<bar> \<le> 1 / 10 ^ 9)"
proof -
  have init: "init_loop rnd 16 0 123456789 A0 B0 C0 = Inr (gen_A rnd 16, gen_B rnd 16, replicate 16 0)"
    using assms by (rule init_loop_gen)
  have "mm_i rnd 4 0 (gen_A rnd 16) (gen_B rnd 16) (replicate (nat 4 * nat 4) 0) =
      Inr (reference_mul rnd (nat 4) (gen_A rnd 16) (gen_B rnd 16))"
    by (rule mm_i_reference) (simp_all add: gen_A_def gen_B_def INT_MAX_def)
  then have mm: "mm_i rnd 4 0 (gen_A rnd 16) (gen_B rnd 16) (replicate 16 0) =
      Inr (reference_mul rnd 4 (gen_A rnd 16) (gen_B rnd 16))"
    by simp
  have "length (reference_mul rnd 4 (gen_A rnd 16) (gen_B rnd 16)) = 16"
    by (simp add: reference_mul_length)
  with init mm show ?thesis by simp
qed

theorem ikj_matches_reference_witness:
  "length (map real [0..<16]) = 16
   \<and> (\<exists>A B C C'. init_loop (\<lambda>x. x) 16 0 123456789 (map real [0..<16]) (map real [0..<16]) (map real [0..<16])
                     = Inr (A, B, C)
           \<and> A = gen_A (\<lambda>x. x) 16 \<and> B = gen_B (\<lambda>x. x) 16 \<and> C = replicate 16 0
           \<and> mm_i (\<lambda>x. x) 4 0 A B C = Inr C' \<and> length C' = 16
           \<and> (\<forall>i<4. \<forall>j<4. \<bar>C' ! (i * 4 + j) - reference_mul (\<lambda>x. x) 4 A B ! (i * 4 + j)\<bar> \<le> 1 / 10 ^ 9))"
proof -
  have l: "length (map real [0..<16]) = 16" by simp
  from ikj_matches_reference [OF l l l, of "\<lambda>x. x"] l show ?thesis by blast
qed

section \<open>Failure sentinels\<close>

lemma count_loop_mono:
  "count_loop limit i cnt a = Inr c \<Longrightarrow> cnt \<le> c"
proof (induction limit i cnt a rule: count_loop.induct)
  case (1 limit i cnt a)
  show ?case
  proof (cases "i \<le> limit \<and> 0 \<le> i \<and> nat i < length a \<and> \<not> INT_MAX < i + 1")
    case True
    then have "count_loop limit i cnt a =
        count_loop limit (i + 1) (if a ! nat i \<noteq> 0 then cnt + 1 else cnt) a"
      by (subst count_loop.simps) simp
    with "1.prems" have "count_loop limit (i + 1) (if a ! nat i \<noteq> 0 then cnt + 1 else cnt) a = Inr c"
      by simp
    from "1.IH" [OF _ _ _ this] True have "(if a ! nat i \<noteq> 0 then cnt + 1 else cnt) \<le> c" by simp
    then show ?thesis by (simp split: if_splits)
  next
    case False
    then have "count_loop limit i cnt a =
        (if i \<le> limit then
           (if 0 \<le> i \<and> nat i < length a then Inl Signed_Overflow else Inl Out_Of_Bounds)
         else Inr cnt)"
      by (subst count_loop.simps) auto
    with "1.prems" show ?thesis by (auto split: if_splits)
  qed
qed

lemma sieve_run_nonneg:
  assumes "sieve_run limit a = Some (Inr c)"
  shows "0 \<le> c"
  using assms count_loop_mono [of limit 2 0 _ c]
  by (auto simp: sieve_run_def split: if_splits option.splits sum.splits)

lemma sieve_count_primes_sentinel:
  assumes "sieve_count_primes limit w = Some (Inr (cnt, w'))"
  shows "if heap w (mallocs w) (size_t_of_int (limit + 1)) then 0 \<le> cnt else cnt = - 1"
  using assms sieve_run_nonneg [of limit _ cnt]
  by (auto simp: sieve_count_primes_def malloc_def Let_def split: if_splits option.splits sum.splits)

lemma matrix_mul_test_sentinel:
  assumes "fp_model rnd" and "clock w (ticks w) \<le> clock w (Suc (ticks w))"
    and "matrix_mul_test rnd M w = Inr (t, w')"
  shows "if matrix_allocated M w then 0 \<le> t else t = - 1"
proof (cases "matrix_allocated M w")
  case False
  with assms(3) show ?thesis by (simp add: matrix_mul_test_failed)
next
  case True
  have z: "rnd 0 = 0" using assms(1) [unfolded fp_model_def, THEN conjunct2, THEN conjunct1, rule_format, of 0]
    by simp
  have "rnd 0 \<le> rnd (clock w (Suc (ticks w)) - clock w (ticks w))"
    using assms(1,2) by (simp add: fp_model_def)
  moreover have "t = rnd (clock w (Suc (ticks w)) - clock w (ticks w))"
    using assms(3) True by (auto simp: matrix_mul_test_allocated split: sum.splits)
  ultimately show ?thesis using True z by simp
qed

lemma fp_model_exact: "fp_model (\<lambda>x. x)"
  by (simp add: fp_model_def)

text \<open>
  C7. Whenever \<open>sieve_count_primes\<close> returns, the value left in \<^verbatim>\<open>*out_count\<close> is \<open>-1\<close> if
  the allocation failed and a count \<open>\<ge> 0\<close> if it succeeded, so a failure is never reported as
  the count 0. Whenever \<open>matrix_mul_test\<close> returns, in an arithmetic satisfying \<open>fp_model\<close>
  and with a clock whose second reading is not below its first, the value left in
  \<^verbatim>\<open>*out_time\<close> is \<open>-1\<close> if one of the three allocations failed and an elapsed time \<open>\<ge> 0\<close>
  otherwise.
\<close>

theorem allocation_failure_sentinels:
  "(sieve_count_primes limit w = Some (Inr (cnt, w')) \<longrightarrow>
      (if heap w (mallocs w) (size_t_of_int (limit + 1)) then 0 \<le> cnt else cnt = - 1))
   \<and> (fp_model rnd \<and> clock u (ticks u) \<le> clock u (Suc (ticks u))
        \<and> matrix_mul_test rnd M u = Inr (t, u') \<longrightarrow>
      (if matrix_allocated M u then 0 \<le> t else t = - 1))"
  using sieve_count_primes_sentinel [of limit w cnt w'] matrix_mul_test_sentinel [of rnd u M t u']
  by blast

theorem allocation_failure_sentinels_witness:
  "sieve_count_primes 10 starved_world =
     Some (Inr (- 1, eprintf (''malloc failed sieve'' @ [nl]) [] (starved_world\<lparr>mallocs := Suc 0\<rparr>)))
   \<and> \<not> heap starved_world (mallocs starved_world) (size_t_of_int (10 + 1))
   \<and> fp_model (\<lambda>x. x)
   \<and> clock starved_world (ticks starved_world) \<le> clock starved_world (Suc (ticks starved_world))
   \<and> matrix_mul_test (\<lambda>x. x) 4 starved_world =
       Inr (- 1, eprintf (''malloc failed matrix'' @ [nl]) []
                   (starved_world\<lparr>mallocs := Suc (Suc (Suc 0))\<rparr>))
   \<and> \<not> matrix_allocated 4 starved_world
   \<and> (if heap starved_world (mallocs starved_world) (size_t_of_int (10 + 1))
       then (0::int) \<le> - 1 else (- 1::int) = - 1)
   \<and> (if matrix_allocated 4 starved_world then (0::real) \<le> - 1 else (- 1::real) = - 1)"
proof -
  have s: "sieve_count_primes 10 starved_world =
     Some (Inr (- 1, eprintf (''malloc failed sieve'' @ [nl]) [] (starved_world\<lparr>mallocs := Suc 0\<rparr>)))"
    by (simp add: sieve_count_primes_def malloc_def starved_world_def plain_world_def INT_MAX_def)
  have na: "\<not> matrix_allocated 4 starved_world"
    by (simp add: matrix_allocated_def starved_world_def plain_world_def)
  have m: "matrix_mul_test (\<lambda>x. x) 4 starved_world =
       Inr (- 1, eprintf (''malloc failed matrix'' @ [nl]) []
                   (starved_world\<lparr>mallocs := Suc (Suc (Suc 0))\<rparr>))"
    unfolding matrix_mul_test_failed [OF na] by (simp add: starved_world_def plain_world_def)
  have c: "clock starved_world (ticks starved_world) \<le> clock starved_world (Suc (ticks starved_world))"
    by (simp add: starved_world_def plain_world_def)
  have h: "\<not> heap starved_world (mallocs starved_world) (size_t_of_int (10 + 1))"
    by (simp add: starved_world_def plain_world_def)
  from allocation_failure_sentinels [of 10 starved_world "- 1" _ "\<lambda>x. x" starved_world 4 "- 1"]
    s m fp_model_exact c h na
  show ?thesis by auto
qed

section \<open>The Mandelbrot rasterizer: iteration count and colour\<close>

lemma mandel_iter_spec:
  assumes "0 \<le> iter" and "iter \<le> maxiter"
    and "orbit rnd cx cy (nat iter) = (zx, zy)"
    and "\<forall>k < nat iter. norm2 rnd (orbit rnd cx cy k) \<le> 4"
  shows "iter \<le> mandel_iter rnd cx cy maxiter zx zy iter
         \<and> mandel_iter rnd cx cy maxiter zx zy iter \<le> maxiter
         \<and> (\<forall>k < nat (mandel_iter rnd cx cy maxiter zx zy iter). norm2 rnd (orbit rnd cx cy k) \<le> 4)
         \<and> (mandel_iter rnd cx cy maxiter zx zy iter = maxiter
              \<or> 4 < norm2 rnd (orbit rnd cx cy (nat (mandel_iter rnd cx cy maxiter zx zy iter))))"
  using assms
proof (induction "nat (maxiter - iter)" arbitrary: iter zx zy rule: less_induct)
  case less
  have n2: "norm2 rnd (orbit rnd cx cy (nat iter)) = rnd (rnd (zx * zx) + rnd (zy * zy))"
    using less.prems(3) by (simp add: norm2_def)
  show ?case
  proof (cases "rnd (rnd (zx * zx) + rnd (zy * zy)) \<le> 4 \<and> iter < maxiter")
    case False
    then have r: "mandel_iter rnd cx cy maxiter zx zy iter = iter"
      by (subst mandel_iter.simps) auto
    from False less.prems(2) have "iter = maxiter \<or> 4 < norm2 rnd (orbit rnd cx cy (nat iter))"
      unfolding n2 by linarith
    then show ?thesis unfolding r using less.prems by simp
  next
    case True
    let ?nx = "rnd (rnd (rnd (zx * zx) - rnd (zy * zy)) + cx)"
    let ?ny = "rnd (rnd (rnd (2 * zx) * zy) + cy)"
    have r: "mandel_iter rnd cx cy maxiter zx zy iter = mandel_iter rnd cx cy maxiter ?nx ?ny (iter + 1)"
      by (subst mandel_iter.simps) (use True in \<open>simp add: Let_def\<close>)
    have ni: "nat (iter + 1) = Suc (nat iter)" using less.prems(1) by simp
    have o: "orbit rnd cx cy (nat (iter + 1)) = (?nx, ?ny)"
      unfolding ni using less.prems(3) by simp
    have b: "\<forall>k < nat (iter + 1). norm2 rnd (orbit rnd cx cy k) \<le> 4"
      unfolding ni using less.prems(4) True n2 by (auto simp: less_Suc_eq)
    have "nat (maxiter - (iter + 1)) < nat (maxiter - iter)" using True by linarith
    moreover have "0 \<le> iter + 1" "iter + 1 \<le> maxiter" using less.prems(1) True by auto
    ultimately have "iter + 1 \<le> mandel_iter rnd cx cy maxiter ?nx ?ny (iter + 1)
         \<and> mandel_iter rnd cx cy maxiter ?nx ?ny (iter + 1) \<le> maxiter
         \<and> (\<forall>k < nat (mandel_iter rnd cx cy maxiter ?nx ?ny (iter + 1)). norm2 rnd (orbit rnd cx cy k) \<le> 4)
         \<and> (mandel_iter rnd cx cy maxiter ?nx ?ny (iter + 1) = maxiter
              \<or> 4 < norm2 rnd (orbit rnd cx cy (nat (mandel_iter rnd cx cy maxiter ?nx ?ny (iter + 1)))))"
      using o b by (rule less.hyps)
    then show ?thesis unfolding r by auto
  qed
qed

lemma mandel_iter_nonpositive:
  assumes "maxiter \<le> 0"
  shows "mandel_iter rnd cx cy maxiter 0 0 0 = 0"
  by (subst mandel_iter.simps) (use assms in simp)

lemma mandel_iter_nonneg: "0 \<le> mandel_iter rnd cx cy maxiter 0 0 0"
proof (cases "0 \<le> maxiter")
  case True
  then show ?thesis using mandel_iter_spec [of 0 maxiter rnd cx cy 0 0] by simp
next
  case False
  then show ?thesis by (simp add: mandel_iter_nonpositive)
qed

lemma fp_exact:
  assumes "fp_model rnd" and "\<bar>k\<bar> \<le> 2 ^ 53"
  shows "rnd (real_of_int k) = real_of_int k"
  using assms by (simp add: fp_model_def)

lemma fp_mono:
  assumes "fp_model rnd" and "x \<le> y"
  shows "rnd x \<le> rnd y"
  using assms by (simp add: fp_model_def)

lemma fp_rel:
  assumes "fp_model rnd" and "1 / 2 ^ 1022 \<le> \<bar>x\<bar>" and "\<bar>x\<bar> \<le> 2 ^ 1023"
  shows "\<bar>rnd x - x\<bar> \<le> \<bar>x\<bar> / 2 ^ 53"
  using assms by (simp add: fp_model_def)

lemma color_index_exact:
  assumes fp: "fp_model rnd" and "0 \<le> iter" and "iter < maxiter" and "maxiter \<le> INT_MAX"
  shows "color_index rnd iter maxiter = (255 * iter) div maxiter"
proof -
  define a where "a = 255 * iter"
  define k where "k = a div maxiter"
  define q where "q = real_of_int a / real_of_int maxiter"
  have m: "0 < maxiter" using assms(2,3) by simp
  have mr: "0 < real_of_int maxiter" using m by simp
  have a0: "0 \<le> a" using assms(2) by (simp add: a_def)
  have alt: "a < 255 * maxiter" using assms(3) by (simp add: a_def)
  have "\<bar>a\<bar> \<le> 255 * 2147483647" using a0 alt assms(4) by (simp add: INT_MAX_def)
  then have "\<bar>a\<bar> \<le> 2 ^ 53" by simp
  then have ra: "rnd (real_of_int a) = real_of_int a" by (rule fp_exact [OF fp])
  have kfl: "k = \<lfloor>q\<rfloor>" unfolding k_def q_def by (simp add: floor_divide_of_int_eq)
  have k0: "0 \<le> k" unfolding k_def using a0 m by (simp add: pos_imp_zdiv_nonneg_iff)
  have "a = maxiter * (a div maxiter) + a mod maxiter" by simp
  moreover have "0 \<le> a mod maxiter" using m by simp
  ultimately have "maxiter * (a div maxiter) \<le> a" by linarith
  then have "k * maxiter \<le> a" unfolding k_def by (simp add: mult.commute)
  with alt have "k * maxiter < 255 * maxiter" by linarith
  then have k255: "k < 255" using m by simp
  have "\<bar>k\<bar> \<le> 2 ^ 53" using k0 k255 by simp
  then have rk: "rnd (real_of_int k) = real_of_int k" by (rule fp_exact [OF fp])
  have kq: "real_of_int k \<le> q" unfolding kfl by simp
  have q0: "0 \<le> q" unfolding q_def using a0 m by simp
  have q255: "q < 255"
  proof -
    have "real_of_int a < 255 * real_of_int maxiter" using alt
      by (metis of_int_less_iff of_int_mult of_int_numeral)
    then show ?thesis unfolding q_def using mr by (simp add: pos_divide_less_eq)
  qed
  have low: "real_of_int k \<le> rnd q" using fp_mono [OF fp kq] rk by simp
  have up: "rnd q < real_of_int k + 1"
  proof (cases "a = 0")
    case True
    then have "q = 0" "k = 0" by (simp_all add: q_def k_def)
    moreover have "rnd 0 = 0" using fp_exact [OF fp, of 0] by simp
    ultimately show ?thesis by simp
  next
    case False
    then have a1: "1 \<le> a" using a0 by simp
    let ?r = "a mod maxiter"
    have r: "?r \<le> maxiter - 1" using m by simp
    have aeq: "a = k * maxiter + ?r" unfolding k_def by simp
    have "real_of_int a = real_of_int k * real_of_int maxiter + real_of_int ?r"
      by (metis aeq of_int_add of_int_mult)
    then have qeq: "q = real_of_int k + real_of_int ?r / real_of_int maxiter"
      unfolding q_def using mr by (simp add: field_simps)
    have "real_of_int ?r \<le> real_of_int maxiter - 1" using r by (metis of_int_le_iff of_int_diff of_int_1)
    then have "real_of_int ?r / real_of_int maxiter \<le> (real_of_int maxiter - 1) / real_of_int maxiter"
      using mr by (simp add: divide_right_mono)
    also have "\<dots> = 1 - 1 / real_of_int maxiter" using mr by (simp add: field_simps)
    finally have qup: "q \<le> real_of_int k + 1 - 1 / real_of_int maxiter" unfolding qeq by simp
    have mle: "real_of_int maxiter \<le> 2147483647"
      using assms(4) unfolding INT_MAX_def by (metis of_int_le_iff of_int_numeral)
    have inv: "1 / 2147483647 \<le> 1 / real_of_int maxiter"
      using mle mr by (simp add: frac_le)
    have "1 / real_of_int maxiter \<le> q"
    proof -
      have "1 \<le> real_of_int a" using a1 by simp
      then show ?thesis unfolding q_def using mr by (simp add: divide_right_mono)
    qed
    with inv have qlow: "1 / 2147483647 \<le> q" by simp
    have "(1::real) / 2 ^ 1022 \<le> 1 / 2147483647" by (simp add: frac_le)
    with qlow have "1 / 2 ^ 1022 \<le> \<bar>q\<bar>" by simp
    moreover have "\<bar>q\<bar> \<le> 2 ^ 1023"
    proof -
      have "(255::real) \<le> 2 ^ 1023" by simp
      with q255 q0 show ?thesis by simp
    qed
    ultimately have "\<bar>rnd q - q\<bar> \<le> \<bar>q\<bar> / 2 ^ 53" by (rule fp_rel [OF fp])
    then have "rnd q - q \<le> \<bar>q\<bar> / 2 ^ 53" by (rule abs_le_D1)
    moreover have "\<bar>q\<bar> = q" using q0 by simp
    ultimately have "rnd q \<le> q + q / 2 ^ 53" by linarith
    also have "q / 2 ^ 53 \<le> 255 / 2 ^ 53" using q255 by (simp add: divide_right_mono)
    also have "(255::real) / 2 ^ 53 < 1 / 2147483647" by simp
    finally have "rnd q < q + 1 / 2147483647" by simp
    with inv qup show ?thesis by simp
  qed
  have "\<lfloor>rnd q\<rfloor> = k" using low up by (simp add: floor_unique)
  moreover have "0 \<le> rnd q" using low k0 by simp
  ultimately have "c_trunc (rnd q) = k" by (simp add: c_trunc_def)
  moreover have "color_index rnd iter maxiter = c_trunc (rnd q)"
    unfolding color_index_def q_def a_def using ra [unfolded a_def] by simp
  ultimately show ?thesis by (simp add: k_def a_def)
qed

lemma pixel_iter_range:
  "0 \<le> pixel_iter rnd width height maxiter x y"
  "0 \<le> maxiter \<Longrightarrow> pixel_iter rnd width height maxiter x y \<le> maxiter"
  "maxiter \<le> 0 \<Longrightarrow> pixel_iter rnd width height maxiter x y = 0"
proof -
  show "0 \<le> pixel_iter rnd width height maxiter x y"
    unfolding pixel_iter_def by (rule mandel_iter_nonneg)
  show "pixel_iter rnd width height maxiter x y \<le> maxiter" if "0 \<le> maxiter"
    unfolding pixel_iter_def
    using mandel_iter_spec [of 0 maxiter rnd "pixel_cx rnd width x" "pixel_cy rnd height y" 0 0] that
    by simp
  show "pixel_iter rnd width height maxiter x y = 0" if "maxiter \<le> 0"
    unfolding pixel_iter_def using that by (rule mandel_iter_nonpositive)
qed

lemma color_index_zero:
  assumes "fp_model rnd"
  shows "color_index rnd 0 maxiter = 0"
proof -
  have "rnd 0 = 0" using fp_exact [OF assms, of 0] by simp
  then show ?thesis by (simp add: color_index_def c_trunc_def)
qed

lemma c_mod_nonneg:
  assumes "0 \<le> a" and "0 < b"
  shows "c_mod a b = a mod b"
proof -
  have "c_div a b = a div b"
    using assms by (cases "a = 0") (simp_all add: c_div_def)
  then show ?thesis by (simp add: c_mod_def minus_mult_div_eq_mod)
qed

lemma color_index_floor:
  assumes "fp_model rnd" and "maxiter \<le> INT_MAX" and "0 \<le> n" and "n \<noteq> maxiter"
    and "0 \<le> maxiter \<longrightarrow> n \<le> maxiter" and "maxiter \<le> 0 \<longrightarrow> n = 0"
  shows "color_index rnd n maxiter = \<lfloor>255 * real_of_int n / real_of_int maxiter\<rfloor>"
    and "0 \<le> color_index rnd n maxiter"
proof -
  have both: "color_index rnd n maxiter = \<lfloor>255 * real_of_int n / real_of_int maxiter\<rfloor>
        \<and> 0 \<le> color_index rnd n maxiter"
  proof (cases "0 < maxiter")
    case True
    then have lt: "n < maxiter" using assms(4,5) by simp
    have e: "color_index rnd n maxiter = (255 * n) div maxiter"
      by (rule color_index_exact [OF assms(1,3) lt assms(2)])
    have "\<lfloor>real_of_int (255 * n) / real_of_int maxiter\<rfloor> = (255 * n) div maxiter"
      by (rule floor_divide_of_int_eq)
    moreover have "0 \<le> (255 * n) div maxiter"
      using True assms(3) by (simp add: pos_imp_zdiv_nonneg_iff)
    ultimately show ?thesis using e by simp
  next
    case False
    then have "n = 0" using assms(6) by simp
    then show ?thesis using color_index_zero [OF assms(1)] by simp
  qed
  from both show "color_index rnd n maxiter = \<lfloor>255 * real_of_int n / real_of_int maxiter\<rfloor>" ..
  from both show "0 \<le> color_index rnd n maxiter" ..
qed

lemma color_channels:
  assumes "0 \<le> color_index rnd n maxiter" and "n \<noteq> maxiter"
  shows "map uint (color rnd n maxiter) =
           [color_index rnd n maxiter mod 256, (3 * color_index rnd n maxiter) mod 256,
            (7 * color_index rnd n maxiter) mod 256]"
proof -
  let ?c = "color_index rnd n maxiter"
  have "c_mod ?c 256 = ?c mod 256" "c_mod (?c * 3) 256 = (3 * ?c) mod 256"
    "c_mod (?c * 7) 256 = (7 * ?c) mod 256"
    using assms(1) by (simp_all add: c_mod_nonneg mult.commute)
  then show ?thesis using assms(2) by (simp add: color_def Let_def uint_word_of_int)
qed

lemma pixel_iter_corner: "pixel_iter (\<lambda>x. x) 400 300 3 0 0 = 1"
  by (simp add: pixel_iter_def pixel_cx_def pixel_cy_def mandel_iter.simps)

lemma pixel_iter_corner_256: "pixel_iter (\<lambda>x. x) 400 300 256 0 0 = 1"
  by (simp add: pixel_iter_def pixel_cx_def pixel_cy_def mandel_iter.simps)

lemma pixel_iter_centre: "pixel_iter (\<lambda>x. x) 400 300 3 200 150 = 3"
  by (simp add: pixel_iter_def pixel_cx_def pixel_cy_def mandel_iter.simps)

text \<open>
  C5. For every pixel \<open>(x, y)\<close>, in an arithmetic satisfying \<open>fp_model\<close> and for every
  \<open>maxiter\<close> of type \<^verbatim>\<open>int\<close>: the count \<open>n\<close> of the pixel is the first index at which the orbit
  of \<open>z \<leftarrow> z\<^sup>2 + c\<close> from 0 has \<open>|z|\<^sup>2 > 4\<close>, or \<open>maxiter\<close> if there is none before (for
  \<open>maxiter \<ge> 0\<close>); a pixel whose count is \<open>maxiter\<close> is \<open>(0, 0, 0)\<close>; every other pixel (an
  escaped one) has the channels \<open>c mod 256\<close>, \<open>3c mod 256\<close>, \<open>7c mod 256\<close> with
  \<open>c = \<lfloor>255 \<cdot> n / maxiter\<rfloor>\<close>, which is the value of the program's colour index.
\<close>

theorem pixel_colouring:
  assumes "fp_model rnd" and "maxiter \<le> INT_MAX"
  shows "let n = pixel_iter rnd width height maxiter x y;
             cx = pixel_cx rnd width x;
             cy = pixel_cy rnd height y;
             c = \<lfloor>255 * real_of_int n / real_of_int maxiter\<rfloor>
         in (0 \<le> maxiter \<longrightarrow>
               0 \<le> n \<and> n \<le> maxiter
               \<and> (\<forall>k < nat n. norm2 rnd (orbit rnd cx cy k) \<le> 4)
               \<and> (n = maxiter \<or> 4 < norm2 rnd (orbit rnd cx cy (nat n))))
            \<and> (n = maxiter \<longrightarrow> pixel rnd width height maxiter x y = [0, 0, 0])
            \<and> (n \<noteq> maxiter \<longrightarrow>
                 color_index rnd n maxiter = c
                 \<and> map uint (pixel rnd width height maxiter x y) =
                     [c mod 256, (3 * c) mod 256, (7 * c) mod 256])"
proof -
  define n where "n = pixel_iter rnd width height maxiter x y"
  let ?cx = "pixel_cx rnd width x" and ?cy = "pixel_cy rnd height y"
  have loop: "0 \<le> n \<and> n \<le> maxiter
               \<and> (\<forall>k < nat n. norm2 rnd (orbit rnd ?cx ?cy k) \<le> 4)
               \<and> (n = maxiter \<or> 4 < norm2 rnd (orbit rnd ?cx ?cy (nat n)))" if "0 \<le> maxiter"
    unfolding n_def pixel_iter_def
    using mandel_iter_spec [of 0 maxiter rnd ?cx ?cy 0 0] that by simp
  have black: "pixel rnd width height maxiter x y = [0, 0, 0]" if "n = maxiter"
    using that by (simp add: pixel_def color_def n_def)
  have col: "color_index rnd n maxiter = \<lfloor>255 * real_of_int n / real_of_int maxiter\<rfloor>
      \<and> map uint (pixel rnd width height maxiter x y) =
          [\<lfloor>255 * real_of_int n / real_of_int maxiter\<rfloor> mod 256,
           (3 * \<lfloor>255 * real_of_int n / real_of_int maxiter\<rfloor>) mod 256,
           (7 * \<lfloor>255 * real_of_int n / real_of_int maxiter\<rfloor>) mod 256]" if ne: "n \<noteq> maxiter"
  proof -
    have r: "0 \<le> n" "0 \<le> maxiter \<longrightarrow> n \<le> maxiter" "maxiter \<le> 0 \<longrightarrow> n = 0"
      unfolding n_def by (simp_all add: pixel_iter_range)
    note ci = color_index_floor [OF assms r(1) ne r(2,3)]
    from color_channels [OF ci(2) ne] ci(1) show ?thesis
      by (simp add: pixel_def n_def)
  qed
  from loop black col show ?thesis unfolding Let_def n_def by blast
qed

theorem pixel_colouring_witness:
  "fp_model (\<lambda>x. x) \<and> 3 \<le> INT_MAX
   \<and> pixel_iter (\<lambda>x. x) 400 300 3 0 0 = 1
   \<and> map uint (pixel (\<lambda>x. x) 400 300 3 0 0) = [85, 255, 83]
   \<and> pixel_iter (\<lambda>x. x) 400 300 3 200 150 = 3
   \<and> pixel (\<lambda>x. x) 400 300 3 200 150 = [0, 0, 0]"
proof -
  have i: "(3::int) \<le> INT_MAX" by (simp add: INT_MAX_def)
  have "map uint (pixel (\<lambda>x. x) 400 300 3 0 0) = [85, 255, 83]"
    using pixel_colouring [OF fp_model_exact i, of 400 300 0 0]
    by (simp add: Let_def pixel_iter_corner)
  moreover have "pixel (\<lambda>x. x) 400 300 3 200 150 = [0, 0, 0]"
    using pixel_colouring [OF fp_model_exact i, of 400 300 200 150]
    by (simp add: Let_def pixel_iter_centre)
  ultimately show ?thesis using fp_model_exact i pixel_iter_corner pixel_iter_centre by simp
qed

text \<open>
  C10. A black pixel need not have reached \<open>maxiter\<close>: for every count \<open>iter \<ge> 0\<close> with
  \<open>255 \<cdot> iter < maxiter\<close> (so \<open>iter \<noteq> maxiter\<close>, an escaped pixel), the colour index is 0 and
  the colour is \<open>(0, 0, 0)\<close>, and so is every pixel with that count. The witness is the
  top-left pixel of the 400 by 300 image with \<open>maxiter = 256\<close>, which escapes after one step.
\<close>

theorem black_pixel_may_have_escaped:
  assumes "fp_model rnd" and "maxiter \<le> INT_MAX" and "0 \<le> iter" and "255 * iter < maxiter"
  shows "iter \<noteq> maxiter \<and> color_index rnd iter maxiter = 0
         \<and> color rnd iter maxiter = [0, 0, 0]
         \<and> (pixel_iter rnd width height maxiter x y = iter \<longrightarrow>
              pixel rnd width height maxiter x y = [0, 0, 0])"
proof -
  have lt: "iter < maxiter" using assms(3,4) by linarith
  have "color_index rnd iter maxiter = (255 * iter) div maxiter"
    by (rule color_index_exact [OF assms(1,3) lt assms(2)])
  also have "\<dots> = 0" using assms(3,4) by (simp add: div_pos_pos_trivial)
  finally have c: "color_index rnd iter maxiter = 0" .
  have col: "color rnd iter maxiter = [0, 0, 0]"
    using lt c by (simp add: color_def Let_def c_mod_def c_div_def)
  then show ?thesis using lt c by (auto simp: pixel_def)
qed

theorem black_pixel_may_have_escaped_witness:
  "fp_model (\<lambda>x. x) \<and> 256 \<le> INT_MAX \<and> (0::int) \<le> 1 \<and> (255 * 1 < (256::int))
   \<and> pixel_iter (\<lambda>x. x) 400 300 256 0 0 = 1 \<and> (1::int) \<noteq> 256
   \<and> color_index (\<lambda>x. x) 1 256 = 0
   \<and> pixel (\<lambda>x. x) 400 300 256 0 0 = [0, 0, 0]"
proof -
  have i: "(256::int) \<le> INT_MAX" by (simp add: INT_MAX_def)
  have a: "(0::int) \<le> 1" "255 * 1 < (256::int)" by simp_all
  from black_pixel_may_have_escaped [OF fp_model_exact i a, of 400 300 0 0]
    pixel_iter_corner_256 fp_model_exact i
  show ?thesis by simp
qed

section \<open>The image file\<close>

lemma row_loop_closed:
  "row_loop rnd width height maxiter y x out =
     out @ concat (map (\<lambda>x. pixel rnd width height maxiter x y) [x..width - 1])"
proof (induction "nat (width - x)" arbitrary: x out rule: less_induct)
  case less
  show ?case
  proof (cases "x < width")
    case False
    then have "[x..width - 1] = []" by simp
    moreover have "row_loop rnd width height maxiter y x out = out"
      by (subst row_loop.simps) (use False in simp)
    ultimately show ?thesis by simp
  next
    case True
    have u: "[x..width - 1] = x # [x + 1..width - 1]" using True by (simp add: upto_rec1)
    have "nat (width - (x + 1)) < nat (width - x)" using True by linarith
    from less.hyps [OF this]
    have "row_loop rnd width height maxiter y (x + 1) (out @ pixel rnd width height maxiter x y) =
        (out @ pixel rnd width height maxiter x y)
        @ concat (map (\<lambda>x. pixel rnd width height maxiter x y) [x + 1..width - 1])" .
    moreover have "row_loop rnd width height maxiter y x out =
        row_loop rnd width height maxiter y (x + 1) (out @ pixel rnd width height maxiter x y)"
      by (subst row_loop.simps) (use True in simp)
    ultimately show ?thesis unfolding u by simp
  qed
qed

lemma image_loop_closed:
  "image_loop rnd width height maxiter y out =
     out @ concat (map (\<lambda>y. concat (map (\<lambda>x. pixel rnd width height maxiter x y) [0..width - 1]))
                    [y..height - 1])"
proof (induction "nat (height - y)" arbitrary: y out rule: less_induct)
  case less
  show ?case
  proof (cases "y < height")
    case False
    then have "[y..height - 1] = []" by simp
    moreover have "image_loop rnd width height maxiter y out = out"
      by (subst image_loop.simps) (use False in simp)
    ultimately show ?thesis by simp
  next
    case True
    have u: "[y..height - 1] = y # [y + 1..height - 1]" using True by (simp add: upto_rec1)
    have "nat (height - (y + 1)) < nat (height - y)" using True by linarith
    from less.hyps [OF this]
    have "image_loop rnd width height maxiter (y + 1) (row_loop rnd width height maxiter y 0 out) =
        row_loop rnd width height maxiter y 0 out
        @ concat (map (\<lambda>y. concat (map (\<lambda>x. pixel rnd width height maxiter x y) [0..width - 1]))
                    [y + 1..height - 1])" .
    moreover have "image_loop rnd width height maxiter y out =
        image_loop rnd width height maxiter (y + 1) (row_loop rnd width height maxiter y 0 out)"
      by (subst image_loop.simps) (use True in simp)
    ultimately show ?thesis unfolding u by (simp add: row_loop_closed)
  qed
qed

lemma length_pixel: "length (pixel rnd width height maxiter x y) = 3"
  by (simp add: pixel_def color_def Let_def)

lemma length_concat_const:
  assumes "\<And>x. length (f x) = c"
  shows "length (concat (map f xs)) = c * length xs"
  by (induction xs) (simp_all add: assms)

lemma length_raster:
  "length (raster rnd width height maxiter) = 3 * nat width * nat height"
proof -
  have row: "length (concat (map (\<lambda>x. pixel rnd width height maxiter x y) [0..width - 1])) = 3 * nat width"
    for y
    by (simp add: length_concat_const [where c = 3] length_pixel)
  show ?thesis
    unfolding raster_def by (simp add: length_concat_const [where c = "3 * nat width"] row)
qed

lemma mandelbrot_ppm_file:
  assumes "openable w path"
  shows "files (mandelbrot_ppm rnd path width height maxiter w) path =
           Some (map of_char (ppm_header width height) @ raster rnd width height maxiter)"
  using assms by (simp add: mandelbrot_ppm_def image_loop_closed raster_def)

lemma ppm_header_400_300:
  "ppm_header 400 300 = ''P6'' @ [nl] @ ''400 300'' @ [nl] @ ''255'' @ [nl]"
  by (simp add: ppm_header_def show_int_def digits.simps)

text \<open>
  C6, amended. For every \<open>width \<ge> 0\<close> and \<open>height \<ge> 0\<close> for which the file can be opened, the
  file written is the header \<^verbatim>\<open>"P6\n{width} {height}\n255\n"\<close> followed at once by the pixels
  in row-major order from the top, three bytes each, \<open>width \<cdot> height \<cdot> 3\<close> bytes in all, so its
  length is the length of the header plus \<open>width \<cdot> height \<cdot> 3\<close>; for 400 by 300 the header
  is \<^verbatim>\<open>"P6\n400 300\n255\n"\<close>.
\<close>

theorem ppm_file_layout:
  assumes "openable w path" and "0 \<le> width" and "0 \<le> height"
  shows "files (mandelbrot_ppm rnd path width height maxiter w) path =
           Some (map of_char (ppm_header width height) @ raster rnd width height maxiter)
         \<and> int (length (raster rnd width height maxiter)) = width * height * 3
         \<and> int (length (map of_char (ppm_header width height) @ raster rnd width height maxiter
                          :: uchar list)) =
             int (length (ppm_header width height)) + width * height * 3
         \<and> ppm_header 400 300 = ''P6'' @ [nl] @ ''400 300'' @ [nl] @ ''255'' @ [nl]"
proof -
  have "int (length (raster rnd width height maxiter)) = width * height * 3"
    using assms(2,3) by (simp add: length_raster)
  then show ?thesis using mandelbrot_ppm_file [OF assms(1)] ppm_header_400_300 by simp
qed

theorem ppm_file_layout_witness:
  "openable plain_world ''mandelbrot_test.ppm'' \<and> (0::int) \<le> 400 \<and> (0::int) \<le> 300
   \<and> files (mandelbrot_ppm (\<lambda>x. x) ''mandelbrot_test.ppm'' 400 300 256 plain_world)
        ''mandelbrot_test.ppm'' =
       Some (map of_char (''P6'' @ [nl] @ ''400 300'' @ [nl] @ ''255'' @ [nl])
             @ raster (\<lambda>x. x) 400 300 256)
   \<and> int (length (raster (\<lambda>x. x) 400 300 256)) = 360000
   \<and> int (length (map of_char (''P6'' @ [nl] @ ''400 300'' @ [nl] @ ''255'' @ [nl])
                    @ raster (\<lambda>x. x) 400 300 256 :: uchar list)) = 15 + 360000"
proof -
  have o: "openable plain_world ''mandelbrot_test.ppm''" by (simp add: plain_world_def)
  have a: "(0::int) \<le> 400" "(0::int) \<le> 300" by simp_all
  from ppm_file_layout [OF o a, of "\<lambda>x. x" 256] o show ?thesis by simp
qed

text \<open>
  The claim C6 as stated, for every \<open>(width, height)\<close>, fails at \<open>(-1, -1)\<close>: no pixel is
  written, the file is the header alone, while \<open>width \<cdot> height \<cdot> 3 = 3\<close>.
\<close>

theorem ppm_negative_size_header_only:
  "files (mandelbrot_ppm (\<lambda>x. x) ''out.ppm'' (- 1) (- 1) 256 plain_world) ''out.ppm'' =
     Some (map of_char (ppm_header (- 1) (- 1)))
   \<and> (- 1) * (- 1) * 3 = (3::int)"
  by (simp add: mandelbrot_ppm_def plain_world_def image_loop.simps)

section \<open>The harness runs every stage\<close>

lemma sieve_count_primes_main:
  "sieve_count_primes SIEVE_LIMIT w =
     Some (Inr (if heap w (mallocs w) (size_t_of_int (SIEVE_LIMIT + 1))
                then (int (card {k. 2 \<le> k \<and> int k \<le> SIEVE_LIMIT \<and> is_prime k}),
                      w\<lparr>mallocs := Suc (mallocs w)\<rparr>)
                else (- 1, eprintf (''malloc failed sieve'' @ [nl]) []
                             (w\<lparr>mallocs := Suc (mallocs w)\<rparr>))))"
proof (cases "heap w (mallocs w) (size_t_of_int (SIEVE_LIMIT + 1))")
  case True
  have "sieve_count_primes SIEVE_LIMIT w =
      Some (Inr (int (card {k. 2 \<le> k \<and> int k \<le> SIEVE_LIMIT \<and> is_prime k}),
                 w\<lparr>mallocs := Suc (mallocs w)\<rparr>))"
    by (rule sieve_count_primes_spec) (use True in \<open>simp_all add: SIEVE_LIMIT_def\<close>)
  with True show ?thesis by simp
next
  case False
  then show ?thesis
    by (simp add: sieve_count_primes_def malloc_def Let_def SIEVE_LIMIT_def INT_MAX_def)
qed

lemma matrix_mul_test_main:
  "matrix_mul_test rnd MAT_SIZE w =
     Inr (if matrix_allocated MAT_SIZE w
          then (rnd (clock w (Suc (ticks w)) - clock w (ticks w)),
                printf checksum_fmt
                  [Dbl_arg (spec_checksum rnd (nat MAT_SIZE)
                     (reference_mul rnd (nat MAT_SIZE) (gen_A rnd (nat MAT_SIZE * nat MAT_SIZE))
                        (gen_B rnd (nat MAT_SIZE * nat MAT_SIZE))))]
                  (w\<lparr>mallocs := Suc (Suc (Suc (mallocs w))), ticks := Suc (Suc (ticks w))\<rparr>))
          else (- 1, eprintf (''malloc failed matrix'' @ [nl]) []
                       (w\<lparr>mallocs := Suc (Suc (Suc (mallocs w)))\<rparr>)))"
proof (cases "matrix_allocated MAT_SIZE w")
  case True
  have "matrix_checksum rnd MAT_SIZE =
      Inr (spec_checksum rnd (nat MAT_SIZE)
             (reference_mul rnd (nat MAT_SIZE) (gen_A rnd (nat MAT_SIZE * nat MAT_SIZE))
                (gen_B rnd (nat MAT_SIZE * nat MAT_SIZE))))"
    by (rule matrix_checksum_value) (simp_all add: MAT_SIZE_def)
  then show ?thesis using True by (simp add: matrix_mul_test_allocated)
next
  case False
  then show ?thesis by (simp add: matrix_mul_test_failed)
qed

lemma mandelbrot_ppm_stdout [simp]:
  "stdout (mandelbrot_ppm rnd path width height maxiter w) = stdout w"
  by (simp add: mandelbrot_ppm_def eprintf_def)

lemma mandelbrot_ppm_ticks [simp]:
  "ticks (mandelbrot_ppm rnd path width height maxiter w) = ticks w"
  "clock (mandelbrot_ppm rnd path width height maxiter w) = clock w"
  by (simp_all add: mandelbrot_ppm_def eprintf_def)

lemma mandelbrot_ppm_stderr:
  "stderr (mandelbrot_ppm rnd path width height maxiter w) =
     stderr w @ (if openable w path then [] else [(''Failed to open %s for writing'' @ [nl], [Str_arg path])])"
  by (simp add: mandelbrot_ppm_def eprintf_def)

lemma sieve_ok:
  assumes "heap w (mallocs w) (size_t_of_int (SIEVE_LIMIT + 1))"
  shows "sieve_count_primes SIEVE_LIMIT w =
     Some (Inr (int (card {k. 2 \<le> k \<and> int k \<le> SIEVE_LIMIT \<and> is_prime k}),
                      w\<lparr>mallocs := Suc (mallocs w)\<rparr>))"
  using assms by (simp add: sieve_count_primes_main)

lemma matrix_ok:
  assumes "matrix_allocated MAT_SIZE w"
  shows "matrix_mul_test rnd MAT_SIZE w =
     Inr (rnd (clock w (Suc (ticks w)) - clock w (ticks w)),
                printf checksum_fmt
                  [Dbl_arg (spec_checksum rnd (nat MAT_SIZE)
                     (reference_mul rnd (nat MAT_SIZE) (gen_A rnd (nat MAT_SIZE * nat MAT_SIZE))
                        (gen_B rnd (nat MAT_SIZE * nat MAT_SIZE))))]
                  (w\<lparr>mallocs := Suc (Suc (Suc (mallocs w))), ticks := Suc (Suc (ticks w))\<rparr>))"
  using assms by (simp add: matrix_mul_test_main)

lemma sieve_failed:
  assumes "\<not> heap w (mallocs w) (size_t_of_int (SIEVE_LIMIT + 1))"
  shows "sieve_count_primes SIEVE_LIMIT w =
     Some (Inr (- 1, eprintf (''malloc failed sieve'' @ [nl]) [] (w\<lparr>mallocs := Suc (mallocs w)\<rparr>)))"
  using assms by (simp add: sieve_count_primes_main)

lemma matrix_failed:
  assumes "\<not> matrix_allocated MAT_SIZE w"
  shows "matrix_mul_test rnd MAT_SIZE w =
     Inr (- 1, eprintf (''malloc failed matrix'' @ [nl]) [] (w\<lparr>mallocs := Suc (Suc (Suc (mallocs w)))\<rparr>))"
  using assms by (simp add: matrix_mul_test_main)

lemma stage_sieve_spec:
  "\<exists>cnt w'. stage_sieve rnd w = Some (Inr (cnt, w'))
     \<and> map fst (stdout w') = map fst (stdout w)
         @ [''[1/3] Running sieve up to %d ...'' @ [nl], ''Found %d primes up to %d (%.3f s)'' @ [nl]]
     \<and> map fst (stderr w') = map fst (stderr w)
         @ (if heap w (mallocs w) (size_t_of_int (SIEVE_LIMIT + 1)) then []
            else [''malloc failed sieve'' @ [nl]])
     \<and> heap w' = heap w \<and> mallocs w' = Suc (mallocs w) \<and> openable w' = openable w"
proof (cases "heap w (mallocs w) (size_t_of_int (SIEVE_LIMIT + 1))")
  case True
  then show ?thesis
    unfolding stage_sieve_def Let_def now_seconds_def
    by (simp add: sieve_ok printf_def)
next
  case False
  then show ?thesis
    unfolding stage_sieve_def Let_def now_seconds_def
    by (simp add: sieve_failed printf_def eprintf_def)
qed

lemma stage_matrix_spec:
  "\<exists>t w'. stage_matrix rnd w = Inr (t, w')
     \<and> map fst (stdout w') = map fst (stdout w)
         @ [''[2/3] Matrix multiply %dx%d ...'' @ [nl]]
         @ (if matrix_allocated MAT_SIZE w then [checksum_fmt] else [])
         @ [''Matrix multiply took %.3f s (measured %.3f s)'' @ [nl]]
     \<and> map fst (stderr w') = map fst (stderr w)
         @ (if matrix_allocated MAT_SIZE w then [] else [''malloc failed matrix'' @ [nl]])
     \<and> openable w' = openable w"
proof (cases "matrix_allocated MAT_SIZE w")
  case True
  then have "matrix_allocated MAT_SIZE v" if "heap v = heap w" "mallocs v = mallocs w" for v
    using that by (simp add: matrix_allocated_def)
  with True show ?thesis
    unfolding stage_matrix_def Let_def now_seconds_def
    by (simp add: matrix_ok printf_def)
next
  case False
  then have "\<not> matrix_allocated MAT_SIZE v" if "heap v = heap w" "mallocs v = mallocs w" for v
    using that by (simp add: matrix_allocated_def)
  with False show ?thesis
    unfolding stage_matrix_def Let_def now_seconds_def
    by (simp add: matrix_failed printf_def eprintf_def)
qed

lemma stage_mandelbrot_spec:
  "\<exists>t w'. stage_mandelbrot rnd w = (t, w')
     \<and> map fst (stdout w') = map fst (stdout w)
         @ [''[3/3] Generating Mandelbrot PPM (%dx%d) ...'' @ [nl], ''Mandelbrot wrote %s (%.3f s)'' @ [nl]]
     \<and> map fst (stderr w') = map fst (stderr w)
         @ (if openable w ''mandelbrot_test.ppm'' then []
            else [''Failed to open %s for writing'' @ [nl]])"
  unfolding stage_mandelbrot_def Let_def now_seconds_def
  by (simp add: printf_def mandelbrot_ppm_stderr)

text \<open>
  C8. In every world, that is for every combination of outcomes of the sieve's
  allocation, of the matrix kernel's three allocations and of opening the image file,
  \<open>main\<close> returns the exit status 0 after printing, in this order, the banner, the
  parameters, the progress and result lines of the sieve, of the matrix multiplication (with
  its checksum line when it obtained its blocks) and of the Mandelbrot stage, and the
  summary; what a failed kernel adds is one line on the error stream.
\<close>

theorem main_runs_all_stages:
  "\<exists>w'. main rnd w = Some (Inr (0, w'))
     \<and> map fst (stdout w') =
         map fst (stdout w) @ main_formats (matrix_allocated MAT_SIZE (w\<lparr>mallocs := Suc (mallocs w)\<rparr>))
     \<and> map fst (stderr w') =
         map fst (stderr w)
         @ (if heap w (mallocs w) (size_t_of_int (SIEVE_LIMIT + 1)) then []
            else [''malloc failed sieve'' @ [nl]])
         @ (if matrix_allocated MAT_SIZE (w\<lparr>mallocs := Suc (mallocs w)\<rparr>) then []
            else [''malloc failed matrix'' @ [nl]])
         @ (if openable w ''mandelbrot_test.ppm'' then []
            else [''Failed to open %s for writing'' @ [nl]])"
proof -
  define w0 where "w0 = printf (''SIEVE_LIMIT=%d MAT_SIZE=%d MAN=%dx%d'' @ [nl])
      [Int_arg SIEVE_LIMIT, Int_arg MAT_SIZE, Int_arg MAN_WIDTH, Int_arg MAN_HEIGHT]
      (printf (''Complex test program start'' @ [nl]) [] w)"
  have w0: "map fst (stdout w0) = map fst (stdout w) @ [''Complex test program start'' @ [nl],
        ''SIEVE_LIMIT=%d MAT_SIZE=%d MAN=%dx%d'' @ [nl]]"
    "stderr w0 = stderr w" "heap w0 = heap w" "mallocs w0 = mallocs w" "openable w0 = openable w"
    by (simp_all add: w0_def printf_def)
  from stage_sieve_spec [of rnd w0] obtain cnt w1 where
    s1: "stage_sieve rnd w0 = Some (Inr (cnt, w1))"
    and o1: "map fst (stdout w1) = map fst (stdout w0)
         @ [''[1/3] Running sieve up to %d ...'' @ [nl], ''Found %d primes up to %d (%.3f s)'' @ [nl]]"
    and e1: "map fst (stderr w1) = map fst (stderr w0)
         @ (if heap w0 (mallocs w0) (size_t_of_int (SIEVE_LIMIT + 1)) then []
            else [''malloc failed sieve'' @ [nl]])"
    and f1: "heap w1 = heap w0" "mallocs w1 = Suc (mallocs w0)" "openable w1 = openable w0"
    by blast
  have ma: "matrix_allocated MAT_SIZE w1 = matrix_allocated MAT_SIZE (w\<lparr>mallocs := Suc (mallocs w)\<rparr>)"
    using f1 w0 by (simp add: matrix_allocated_def)
  from stage_matrix_spec [of rnd w1] obtain t w2 where
    s2: "stage_matrix rnd w1 = Inr (t, w2)"
    and o2: "map fst (stdout w2) = map fst (stdout w1)
         @ [''[2/3] Matrix multiply %dx%d ...'' @ [nl]]
         @ (if matrix_allocated MAT_SIZE w1 then [checksum_fmt] else [])
         @ [''Matrix multiply took %.3f s (measured %.3f s)'' @ [nl]]"
    and e2: "map fst (stderr w2) = map fst (stderr w1)
         @ (if matrix_allocated MAT_SIZE w1 then [] else [''malloc failed matrix'' @ [nl]])"
    and f2: "openable w2 = openable w1"
    by blast
  from stage_mandelbrot_spec [of rnd w2] obtain tm w3 where
    s3: "stage_mandelbrot rnd w2 = (tm, w3)"
    and o3: "map fst (stdout w3) = map fst (stdout w2)
         @ [''[3/3] Generating Mandelbrot PPM (%dx%d) ...'' @ [nl], ''Mandelbrot wrote %s (%.3f s)'' @ [nl]]"
    and e3: "map fst (stderr w3) = map fst (stderr w2)
         @ (if openable w2 ''mandelbrot_test.ppm'' then []
            else [''Failed to open %s for writing'' @ [nl]])"
    by blast
  let ?w4 = "printf ('' primes=%d, mat_time=%.3f s, mandelbrot_time=%.3f s'' @ [nl])
      [Int_arg cnt, Dbl_arg t, Dbl_arg tm] (printf (''All tasks done. Summary:'' @ [nl]) [] w3)"
  have "main rnd w = Some (Inr (0, ?w4))"
    unfolding main_def Let_def w0_def [symmetric] by (simp add: s1 s2 s3)
  moreover have "map fst (stdout ?w4) =
      map fst (stdout w) @ main_formats (matrix_allocated MAT_SIZE (w\<lparr>mallocs := Suc (mallocs w)\<rparr>))"
    by (simp add: printf_def o3 o2 o1 w0 ma main_formats_def)
  moreover have "map fst (stderr ?w4) = map fst (stderr w)
         @ (if heap w (mallocs w) (size_t_of_int (SIEVE_LIMIT + 1)) then []
            else [''malloc failed sieve'' @ [nl]])
         @ (if matrix_allocated MAT_SIZE (w\<lparr>mallocs := Suc (mallocs w)\<rparr>) then []
            else [''malloc failed matrix'' @ [nl]])
         @ (if openable w ''mandelbrot_test.ppm'' then []
            else [''Failed to open %s for writing'' @ [nl]])"
    by (simp add: printf_def e3 e2 e1 w0 ma f2 f1)
  ultimately show ?thesis by blast
qed

theorem main_runs_all_stages_witness:
  "\<exists>w'. main (\<lambda>x. x) starved_world = Some (Inr (0, w'))
     \<and> map fst (stdout w') = main_formats False
     \<and> map fst (stderr w') =
         [''malloc failed sieve'' @ [nl], ''malloc failed matrix'' @ [nl],
          ''Failed to open %s for writing'' @ [nl]]"
proof -
  have "\<not> matrix_allocated MAT_SIZE (starved_world\<lparr>mallocs := Suc (mallocs starved_world)\<rparr>)"
    by (simp add: matrix_allocated_def starved_world_def plain_world_def)
  moreover have "\<not> heap starved_world (mallocs starved_world) (size_t_of_int (SIEVE_LIMIT + 1))"
    "\<not> openable starved_world ''mandelbrot_test.ppm''"
    "stdout starved_world = []" "stderr starved_world = []"
    by (simp_all add: starved_world_def plain_world_def)
  ultimately show ?thesis
    using main_runs_all_stages [of "\<lambda>x. x" starved_world] by simp
qed

end
